theory Spec2Isabelle
  imports Main "HOL-Library.AList"
begin

unbundle bit_operations_syntax

section \<open>The type provider\<close>

text \<open>
  The library is instantiated with a \<^verbatim>\<open>ref\<close> object (\<^verbatim>\<open>module.exports = function (ref)\<close>).
  Of that object the layout code reads the two platform constants
  \<^verbatim>\<open>ref.sizeof.pointer\<close> and \<^verbatim>\<open>ref.alignof.pointer\<close>; they are carried in a record that
  every layout function takes as its first argument.

  A type object of the provider has a \<^verbatim>\<open>size\<close>, an \<^verbatim>\<open>alignment\<close> and an \<^verbatim>\<open>indirection\<close>.
  A missing or zero \<^verbatim>\<open>alignment\<close> is the number 0 (both are falsy in
  \<^verbatim>\<open>type.alignment || ref.alignof.pointer\<close>). The flag \<open>t_signed\<close> is what
  \<^verbatim>\<open>isSignedInteger\<close> computes and caches in \<^verbatim>\<open>type.signed\<close>: whether the all-ones bit
  pattern reads back as \<open>-1\<close>.
\<close>

record ref_env =
  sizeof_pointer :: nat
  alignof_pointer :: nat

record rtype =
  t_size :: nat
  t_alignment :: nat
  t_indirection :: nat
  t_signed :: bool

datatype error =
    CoerceTypeError
  | SchemaFrozenError
  | InvalidFieldNameError
  | InvalidTypeError
  | BitfieldOverflowError
  | UnalignedLayoutError
  | RangeError
  | NotANumber

text \<open>
  \<^verbatim>\<open>ref.coerceType\<close> resolves a type name or passes a type object through, and throws when
  it cannot. An argument it resolves is \<open>Some\<close> of the resolved type object, an argument
  it rejects is \<open>None\<close>.
\<close>

definition coerceType :: "'t option \<Rightarrow> error + 't" where
  "coerceType ty = (case ty of None \<Rightarrow> Inl CoerceTypeError | Some t \<Rightarrow> Inr t)"

section \<open>bitfield.js\<close>

text \<open>
  The \<^verbatim>\<open>bits\<close> argument of \<^verbatim>\<open>Bitfield(type, bits)\<close>: left out, one of the falsy values
  of JavaScript, or a number (a width, so a natural number).
\<close>

datatype js_bits = Omitted | JNull | JFalse | JNaN | JEmptyString | JNumber nat

fun falsy :: "js_bits \<Rightarrow> bool" where
  "falsy (JNumber n) = (n = 0)"
| "falsy _ = True"

text \<open>
  The type of a struct field after coercion: a type object of the provider, an array
  type (an object with \<^verbatim>\<open>fixedLength\<close> and the element type in \<^verbatim>\<open>type\<close>, beside its own
  size, alignment and indirection), or the object that \<^verbatim>\<open>Bitfield\<close> returns
  (\<^verbatim>\<open>bits\<close> and the underlying type in \<^verbatim>\<open>type\<close>).
\<close>

datatype ftype =
    Plain rtype
  | ArrayType rtype nat rtype
  | BitfieldType nat rtype

definition Bitfield :: "rtype option \<Rightarrow> js_bits \<Rightarrow> error + ftype" where
  "Bitfield ty bits =
     (let b = (if falsy bits then 1 else (case bits of JNumber n \<Rightarrow> n | _ \<Rightarrow> 1)) in
      case coerceType ty of
        Inl e \<Rightarrow> Inl e
      | Inr t \<Rightarrow>
          if 1 = t_indirection t then Inr (BitfieldType b t)
          else Inl BitfieldOverflowError)"

text \<open>
  Property reads on a field type. The object returned by \<^verbatim>\<open>Bitfield\<close> has
  \<^verbatim>\<open>size: type.size, alignment: type.alignment, indirection: 1\<close>; \<^verbatim>\<open>bits\<close> is absent
  (falsy, 0 here) on every other type.
\<close>

fun size_of :: "ftype \<Rightarrow> nat" where
  "size_of (Plain t) = t_size t"
| "size_of (ArrayType d n el) = t_size d"
| "size_of (BitfieldType b u) = t_size u"

fun alignment_of :: "ftype \<Rightarrow> nat" where
  "alignment_of (Plain t) = t_alignment t"
| "alignment_of (ArrayType d n el) = t_alignment d"
| "alignment_of (BitfieldType b u) = t_alignment u"

fun indirection_of :: "ftype \<Rightarrow> nat" where
  "indirection_of (Plain t) = t_indirection t"
| "indirection_of (ArrayType d n el) = t_indirection d"
| "indirection_of (BitfieldType b u) = 1"

fun bits_of :: "ftype \<Rightarrow> nat" where
  "bits_of (BitfieldType b u) = b"
| "bits_of _ = 0"

section \<open>struct.js: the schema\<close>

text \<open>
  A field object starts as \<^verbatim>\<open>{type}\<close>; \<^verbatim>\<open>recalc\<close> adds \<^verbatim>\<open>offset\<close> and, on a bitfield,
  \<^verbatim>\<open>bitStart\<close>, \<^verbatim>\<open>bits\<close> and \<^verbatim>\<open>mask\<close> (assigned together). A property not yet assigned
  is \<open>None\<close>.
\<close>

record bitinfo =
  bitStart :: nat
  bits :: nat
  bmask :: int

record field =
  f_type :: ftype
  f_offset :: "nat option"
  f_bitinfo :: "bitinfo option"

text \<open>
  The field table \<^verbatim>\<open>fields\<close> is a plain JavaScript object (\<^verbatim>\<open>StructType.fields = {}\<close>),
  written by \<^verbatim>\<open>this.fields[name] = field\<close> and walked by \<^verbatim>\<open>recalc\<close> in the order of
  \<^verbatim>\<open>Object.keys\<close>. That order lists the keys that are array indices first, in ascending
  numeric order, and then the other keys in the order in which they were first assigned.
  An array index is the decimal numeral, without sign or leading zero, of a number
  below \<open>2 ^ 32 - 1\<close>. The table is kept as the list of its entries in the order of
  \<^verbatim>\<open>Object.keys\<close>: assigning to an existing key keeps its position, a new array index
  goes to its place among the indices, any other new key goes last (\<open>table_insert\<close>
  expects the indices in front and in order, as they are in every table built by such
  assignments). Assigning to the key \<^verbatim>\<open>__proto__\<close> runs the setter inherited from
  \<^verbatim>\<open>Object.prototype\<close>, which replaces the prototype of the table and adds no key.
\<close>

definition is_digit :: "char \<Rightarrow> bool" where
  "is_digit c = (c \<in> set ''0123456789'')"

definition index_value :: "string \<Rightarrow> int" where
  "index_value n = foldl (\<lambda>v c. 10 * v + (of_char c - 48)) 0 n"

definition is_array_index :: "string \<Rightarrow> bool" where
  "is_array_index n =
     (n \<noteq> [] \<and> list_all is_digit n \<and> (if hd n = CHR ''0'' then n = ''0'' else True)
      \<and> index_value n < 2 ^ 32 - 1)"

fun table_insert :: "string \<Rightarrow> 'v \<Rightarrow> (string \<times> 'v) list \<Rightarrow> (string \<times> 'v) list" where
  "table_insert n v [] = [(n, v)]"
| "table_insert n v (e # rest) =
     (if is_array_index (fst e) \<and> index_value (fst e) < index_value n
      then e # table_insert n v rest
      else (n, v) # e # rest)"

definition table_put :: "string \<Rightarrow> 'v \<Rightarrow> (string \<times> 'v) list \<Rightarrow> (string \<times> 'v) list" where
  "table_put n v fs =
     (if n = ''__proto__'' then fs
      else if n \<in> set (map fst fs) then AList.update n v fs
      else if is_array_index n then table_insert n v fs
      else fs @ [(n, v)])"

text \<open>
  The \<^verbatim>\<open>StructType\<close> function object with the properties the layout and the freeze use.
\<close>

record struct =
  s_fields :: "(string \<times> field) list"
  s_size :: nat
  s_alignment :: nat
  s_isPacked :: bool
  s_currBits :: nat
  s_lastBitfieldType :: "ftype option"
  s_lastBitfieldOffset :: "nat option"
  s_instanceCreated :: bool

datatype name_arg = Name string | NotAString

definition new_field :: "ftype \<Rightarrow> field" where
  "new_field ty = \<lparr>f_type = ty, f_offset = None, f_bitinfo = None\<rparr>"

text \<open>
  \<^verbatim>\<open>internalDefineProperty\<close>: the result is the error thrown, if any, and the schema as
  the call leaves it. After \<^verbatim>\<open>ref.coerceType\<close> has returned, its own check has made
  the third assertion (an object with \<^verbatim>\<open>size\<close> and \<^verbatim>\<open>indirection\<close>) true.
  \<^verbatim>\<open>Object.defineProperty\<close> on \<^verbatim>\<open>this.prototype\<close> cannot throw: that object is
  extensible and all its own properties are configurable.
\<close>

definition internalDefineProperty ::
  "struct \<Rightarrow> name_arg \<Rightarrow> ftype option \<Rightarrow> error option \<times> struct" where
  "internalDefineProperty s name ty =
     (case coerceType ty of
        Inl e \<Rightarrow> (Some e, s)
      | Inr t \<Rightarrow>
          if s_instanceCreated s then (Some SchemaFrozenError, s)
          else (case name of
                  NotAString \<Rightarrow> (Some InvalidFieldNameError, s)
                | Name n \<Rightarrow>
                    if \<not> (indirection_of t > 1 \<or> size_of t > 0)
                    then (Some InvalidTypeError, s)
                    else (None, s\<lparr>s_fields := table_put n (new_field t) (s_fields s)\<rparr>)))"

subsection \<open>recalc\<close>

definition clearBitfieldSettings :: "struct \<Rightarrow> struct" where
  "clearBitfieldSettings s = s\<lparr>s_currBits := 0, s_lastBitfieldType := None\<rparr>"

text \<open>
  First loop: the alignment of the struct. \<open>field_alignment\<close> is the local \<^verbatim>\<open>alignment\<close>
  of one round.
\<close>

definition field_alignment :: "ref_env \<Rightarrow> ftype \<Rightarrow> nat" where
  "field_alignment ref ty =
     (let alignment = (if alignment_of ty = 0 then alignof_pointer ref else alignment_of ty)
      in if indirection_of ty > 1 then alignof_pointer ref else alignment)"

definition alignment_step :: "ref_env \<Rightarrow> string \<times> field \<Rightarrow> struct \<Rightarrow> struct" where
  "alignment_step ref nf s =
     (let alignment = field_alignment ref (f_type (snd nf))
      in if s_isPacked s
         then s\<lparr>s_alignment := min (if s_alignment s = 0 then alignment else s_alignment s) alignment\<rparr>
         else s\<lparr>s_alignment := max (s_alignment s) alignment\<rparr>)"

text \<open>
  \<^verbatim>\<open>addType\<close> returns the offset and advances \<^verbatim>\<open>struct.size\<close>. In a struct that is not
  packed it asserts \<^verbatim>\<open>offset % align == 0\<close>; with \<^verbatim>\<open>align\<close> zero the remainder is
  \<^verbatim>\<open>NaN\<close> in JavaScript and the assertion fails.
\<close>

definition addType :: "ref_env \<Rightarrow> struct \<Rightarrow> rtype \<Rightarrow> error option \<times> struct \<times> nat" where
  "addType ref s ty =
     (let offset = s_size s;
          align = (if t_indirection ty = 1 then t_alignment ty else alignof_pointer ref);
          padding = (if s_isPacked s then 0 else (align - offset mod align) mod align);
          sz = (if t_indirection ty = 1 then t_size ty else sizeof_pointer ref);
          offset' = offset + padding
      in if \<not> s_isPacked s \<and> (align = 0 \<or> offset' mod align \<noteq> 0)
         then (Some UnalignedLayoutError, s, offset')
         else (None, s\<lparr>s_size := offset' + sz\<rparr>, offset'))"

text \<open>The loop \<^verbatim>\<open>for (let i = 1; i < type.fixedLength; i++) addType(type.type)\<close>.\<close>

fun addType_times :: "ref_env \<Rightarrow> struct \<Rightarrow> rtype \<Rightarrow> nat \<Rightarrow> error option \<times> struct" where
  "addType_times ref s ty 0 = (None, s)"
| "addType_times ref s ty (Suc k) =
     (case addType ref s ty of
        (Some e, s', off) \<Rightarrow> (Some e, s')
      | (None, s', off) \<Rightarrow> addType_times ref s' ty k)"

text \<open>The loop that builds \<^verbatim>\<open>field.mask\<close>, one bit per round.\<close>

fun mk_mask :: "nat \<Rightarrow> int" where
  "mk_mask 0 = 0"
| "mk_mask (Suc i) = push_bit 1 (mk_mask i) OR 1"

text \<open>
  The bitfield branch of the second loop. Where the type changes, the struct is not
  packed and the alignment of the underlying type is missing or zero, the padding is
  \<^verbatim>\<open>NaN\<close> in JavaScript. Nothing is thrown there: the code goes on, and the offset of
  this field, the size of the struct and the offset of every later bitfield are \<^verbatim>\<open>NaN\<close>.
  When only bitfields follow, \<^verbatim>\<open>recalc\<close> returns normally with the size \<^verbatim>\<open>NaN\<close>; a later
  field that is not a bitfield fails the assertion of \<^verbatim>\<open>addType\<close>. Sizes and offsets
  are natural numbers here, so such a layout is not represented: the second loop ends at
  that field with the outcome \<open>NotANumber\<close>, which is not an exception of the code but
  stands for ``\<^verbatim>\<open>NaN\<close> from this field on''. A layout that comes back without an outcome
  is exactly one that the code computes, without exception, in numbers, and every
  statement below about a layout without outcome is a statement about those layouts
  only.
\<close>

definition place_bitfield :: "struct \<Rightarrow> field \<Rightarrow> error option \<times> struct \<times> field" where
  "place_bitfield s f =
     (let ty = f_type f in
      if \<not> (bits_of ty \<le> size_of ty * 8) then (Some BitfieldOverflowError, s, f)
      else
        let newCurrBits0 = s_currBits s + bits_of ty;
            typeDifferent =
              (case s_lastBitfieldType s of
                 None \<Rightarrow> True
               | Some l \<Rightarrow> size_of l \<noteq> size_of ty \<or> alignment_of l \<noteq> alignment_of ty);
            bitsInsufficient = (newCurrBits0 > 8 * size_of ty)
        in
        if typeDifferent \<and> \<not> s_isPacked s \<and> alignment_of ty = 0 then (Some NotANumber, s, f)
        else
          let firstFieldInGroup = (typeDifferent \<or> bitsInsufficient);
              s1 = (if firstFieldInGroup then s\<lparr>s_currBits := 0\<rparr> else s);
              newCurrBits = (if firstFieldInGroup then bits_of ty else newCurrBits0);
              padding = (if s_isPacked s1 then 0
                         else (alignment_of ty - s_size s1 mod alignment_of ty) mod alignment_of ty);
              s2 = (if typeDifferent then s1\<lparr>s_size := s_size s1 + padding\<rparr> else s1);
              off = (if firstFieldInGroup then Some (s_size s2) else s_lastBitfieldOffset s2);
              s3 = (if firstFieldInGroup
                    then s2\<lparr>s_lastBitfieldOffset := off, s_size := s_size s2 + size_of ty\<rparr>
                    else s2);
              f' = f\<lparr>f_offset := off,
                     f_bitinfo := Some \<lparr>bitStart = s_currBits s3, bits = bits_of ty,
                                         bmask = mk_mask (bits_of ty)\<rparr>\<rparr>
          in (None, s3\<lparr>s_lastBitfieldType := Some ty, s_currBits := newCurrBits\<rparr>, f'))"

text \<open>One round of the second loop.\<close>

definition place_plain :: "ref_env \<Rightarrow> struct \<Rightarrow> field \<Rightarrow> rtype \<Rightarrow> error option \<times> struct \<times> field" where
  "place_plain ref s f t =
     (case addType ref s t of
        (Some e, s', off) \<Rightarrow> (Some e, s', f)
      | (None, s', off) \<Rightarrow> (None, s', f\<lparr>f_offset := Some off\<rparr>))"

definition place_field :: "ref_env \<Rightarrow> struct \<Rightarrow> field \<Rightarrow> error option \<times> struct \<times> field" where
  "place_field ref s0 f =
     (let ty = f_type f;
          s = (if bits_of ty = 0 then clearBitfieldSettings s0 else s0)
      in case ty of
           ArrayType d n el \<Rightarrow>
             (case addType ref s el of
                (Some e, s', off) \<Rightarrow> (Some e, s', f)
              | (None, s', off) \<Rightarrow>
                  (case addType_times ref s' el (n - 1) of
                     (r, s'') \<Rightarrow> (r, s'', f\<lparr>f_offset := Some off\<rparr>)))
         | BitfieldType b u \<Rightarrow>
             if b \<noteq> 0 then place_bitfield s f
             else place_plain ref s f (u\<lparr>t_indirection := 1\<rparr>)
         | Plain t \<Rightarrow> place_plain ref s f t)"

text \<open>
  The second loop. An exception leaves the loop: the fields after the failing one keep
  what they had.
\<close>

fun second_pass ::
  "ref_env \<Rightarrow> struct \<Rightarrow> (string \<times> field) list \<Rightarrow> error option \<times> struct \<times> (string \<times> field) list" where
  "second_pass ref s [] = (None, s, [])"
| "second_pass ref s (nf # rest) =
     (case place_field ref s (snd nf) of
        (Some e, s', f') \<Rightarrow> (Some e, s', (fst nf, f') # rest)
      | (None, s', f') \<Rightarrow>
          (case second_pass ref s' rest of
             (r, s'', rest') \<Rightarrow> (r, s'', (fst nf, f') # rest')))"

text \<open>
  \<^verbatim>\<open>addFinalPadding\<close>: with \<^verbatim>\<open>struct.alignment\<close> zero the remainder is \<^verbatim>\<open>NaN\<close> and
  nothing is added.
\<close>

definition addFinalPadding :: "struct \<Rightarrow> struct" where
  "addFinalPadding s =
     (if s_alignment s = 0 then s
      else let left = s_size s mod s_alignment s
           in if left > 0 then s\<lparr>s_size := s_size s + (s_alignment s - left)\<rparr> else s)"

definition recalc :: "ref_env \<Rightarrow> struct \<Rightarrow> error option \<times> struct" where
  "recalc ref s =
     (let s0 = clearBitfieldSettings (s\<lparr>s_size := 0, s_alignment := 0\<rparr>);
          s1 = fold (alignment_step ref) (s_fields s0) s0
      in case second_pass ref s1 (s_fields s1) of
           (Some e, s2, fs) \<Rightarrow> (Some e, s2\<lparr>s_fields := fs\<rparr>)
         | (None, s2, fs) \<Rightarrow> (None, addFinalPadding (s2\<lparr>s_fields := fs\<rparr>)))"

subsection \<open>The builder operations\<close>

definition defineProperty ::
  "ref_env \<Rightarrow> struct \<Rightarrow> name_arg \<Rightarrow> ftype option \<Rightarrow> error option \<times> struct" where
  "defineProperty ref s name ty =
     (case internalDefineProperty s name ty of
        (Some e, s') \<Rightarrow> (Some e, s')
      | (None, s') \<Rightarrow> recalc ref s')"

text \<open>
  \<^verbatim>\<open>Object.entries(obj).forEach(...)\<close>: the keys of an object are strings; the first
  exception ends the loop.
\<close>

fun define_each :: "struct \<Rightarrow> (name_arg \<times> ftype option) list \<Rightarrow> error option \<times> struct" where
  "define_each s [] = (None, s)"
| "define_each s (nt # rest) =
     (case internalDefineProperty s (fst nt) (snd nt) of
        (Some e, s') \<Rightarrow> (Some e, s')
      | (None, s') \<Rightarrow> define_each s' rest)"

definition defineProperties ::
  "ref_env \<Rightarrow> struct \<Rightarrow> (string \<times> ftype option) list \<Rightarrow> error option \<times> struct" where
  "defineProperties ref s obj =
     (case define_each s (map (\<lambda>(n, t). (Name n, t)) obj) of
        (Some e, s') \<Rightarrow> (Some e, s')
      | (None, s') \<Rightarrow> recalc ref s')"

text \<open>
  \<^verbatim>\<open>Struct(fields, opt)\<close>: a fresh \<^verbatim>\<open>StructType\<close>, the declared fields, one \<^verbatim>\<open>recalc\<close>.
  The legacy array form passes whatever stands in the name position.
\<close>

definition empty_struct :: "bool \<Rightarrow> struct" where
  "empty_struct packed =
     \<lparr>s_fields = [], s_size = 0, s_alignment = 0, s_isPacked = packed, s_currBits = 0,
      s_lastBitfieldType = None, s_lastBitfieldOffset = None, s_instanceCreated = False\<rparr>"

definition Struct ::
  "ref_env \<Rightarrow> (name_arg \<times> ftype option) list \<Rightarrow> bool \<Rightarrow> error option \<times> struct" where
  "Struct ref arg packed =
     (case define_each (empty_struct packed) arg of
        (Some e, s') \<Rightarrow> (Some e, s')
      | (None, s') \<Rightarrow> recalc ref s')"

text \<open>
  \<^verbatim>\<open>new StructType()\<close> without arguments: the buffer is allocated and stored with
  \<^verbatim>\<open>this["ref.buffer"] = store\<close>, then \<^verbatim>\<open>_instanceCreated\<close> is set. When a field named
  \<^verbatim>\<open>ref.buffer\<close> has been defined, that assignment runs the field's setter, which reads
  \<^verbatim>\<open>this["ref.buffer"]\<close> through the field's getter, which reads it again: the call stack
  overflows and the flag is not set.
\<close>

definition new_instance :: "struct \<Rightarrow> error option \<times> struct" where
  "new_instance s =
     (if ''ref.buffer'' \<in> fst ` set (s_fields s) then (Some RangeError, s)
      else (None, s\<lparr>s_instanceCreated := True\<rparr>))"

section \<open>struct.js: the bitfield accessors\<close>

text \<open>
  Both accessors of a bitfield touch the buffer only through \<^verbatim>\<open>ref.get\<close> and
  \<^verbatim>\<open>ref.set\<close> at \<^verbatim>\<open>field.offset\<close> with the underlying type, that is the storage unit of
  \<open>t_size\<close> bytes at that offset. The contents of the unit are passed explicitly, as the
  integer \<open>unit\<close> whose low \<open>8 * t_size\<close> bits are the bits stored. \<^verbatim>\<open>ref.get\<close> reads them
  as a signed or an unsigned number. \<^verbatim>\<open>ref.set\<close> stores a number that the type can
  hold and throws a range error, storing nothing, for any other; its result here is the
  new contents of the unit, \<open>None\<close> for the exception. BigInt arithmetic is integer
  arithmetic: \<^verbatim>\<open>>>\<close> is \<open>drop_bit\<close>, \<^verbatim>\<open><<\<close> is \<open>push_bit\<close>, \<^verbatim>\<open>&\<close> and \<^verbatim>\<open>|\<close> work on the
  two's complement. \<^verbatim>\<open>Number(val)\<close> and \<^verbatim>\<open>String(val)\<close> do not change the integer.
\<close>

definition asIntN :: "nat \<Rightarrow> int \<Rightarrow> int" where
  "asIntN n x =
     (let m = x mod 2 ^ n in if n > 0 \<and> m \<ge> 2 ^ (n - 1) then m - 2 ^ n else m)"

definition ref_get :: "rtype \<Rightarrow> int \<Rightarrow> int" where
  "ref_get ty unit =
     (if t_signed ty then asIntN (8 * t_size ty) unit else unit mod 2 ^ (8 * t_size ty))"

definition in_range :: "rtype \<Rightarrow> int \<Rightarrow> bool" where
  "in_range ty v =
     (if t_signed ty then - (2 ^ (8 * t_size ty - 1)) \<le> v \<and> v < 2 ^ (8 * t_size ty - 1)
      else 0 \<le> v \<and> v < 2 ^ (8 * t_size ty))"

definition ref_set :: "rtype \<Rightarrow> int \<Rightarrow> int option" where
  "ref_set ty v = (if in_range ty v then Some (v mod 2 ^ (8 * t_size ty)) else None)"

definition bitfield_get :: "rtype \<Rightarrow> bitinfo \<Rightarrow> int \<Rightarrow> int" where
  "bitfield_get u bi unit =
     (let v0 = ref_get u unit;
          v1 = drop_bit (bitStart bi) v0 AND bmask bi
      in if t_signed u then asIntN (bits bi) v1 else v1)"

definition bitfield_set :: "rtype \<Rightarrow> bitinfo \<Rightarrow> int \<Rightarrow> int \<Rightarrow> int option" where
  "bitfield_set u bi unit v =
     (let val0 = ref_get u unit;
          val1 = val0 OR push_bit (bitStart bi) (v AND bmask bi);
          val2 = (if t_signed u then asIntN (8 * t_size u) val1 else val1)
      in ref_set u val2)"

text \<open>
  The accessors as \<^verbatim>\<open>internalDefineProperty\<close> installs them (\<^verbatim>\<open>if (type.bits)\<close>). The
  getter returns the value, the setter the new contents of the unit; \<open>None\<close> is an
  exception. On a bitfield without \<^verbatim>\<open>bitStart\<close> and \<^verbatim>\<open>mask\<close> the BigInt operation
  throws. A bitfield object whose \<^verbatim>\<open>bits\<close> is falsy gets the plain accessors, which hand
  the object itself to \<^verbatim>\<open>ref.get\<close> and \<^verbatim>\<open>ref.set\<close>, and its own \<^verbatim>\<open>get\<close> and \<^verbatim>\<open>set\<close>
  throw. The value of an array field or of a field of pointer type is not an integer and
  is left out (\<open>None\<close> as well).
\<close>

definition desc_get :: "field \<Rightarrow> int \<Rightarrow> int option" where
  "desc_get f unit =
     (case f_type f of
        BitfieldType b u \<Rightarrow>
          (if b \<noteq> 0 then map_option (\<lambda>bi. bitfield_get u bi unit) (f_bitinfo f) else None)
      | Plain t \<Rightarrow> (if t_indirection t = 1 then Some (ref_get t unit) else None)
      | ArrayType d n el \<Rightarrow> None)"

definition desc_set :: "field \<Rightarrow> int \<Rightarrow> int \<Rightarrow> int option" where
  "desc_set f unit v =
     (case f_type f of
        BitfieldType b u \<Rightarrow>
          (if b \<noteq> 0
           then (case f_bitinfo f of None \<Rightarrow> None | Some bi \<Rightarrow> bitfield_set u bi unit v)
           else None)
      | Plain t \<Rightarrow> (if t_indirection t = 1 then ref_set t v else None)
      | ArrayType d n el \<Rightarrow> None)"

section \<open>The union layout\<close>














section \<open>Reading a layout\<close>

text \<open>\<^verbatim>\<open>S.fields[name].offset\<close> and \<^verbatim>\<open>S.fields[name].bitStart\<close>.\<close>

definition offset_of :: "struct \<Rightarrow> string \<Rightarrow> nat option" where
  "offset_of s n = (case map_of (s_fields s) n of None \<Rightarrow> None | Some f \<Rightarrow> f_offset f)"


definition layout_of :: "struct \<Rightarrow> (string \<times> nat option \<times> nat option) list" where
  "layout_of s = map (\<lambda>(n, f). (n, f_offset f, map_option bitStart (f_bitinfo f))) (s_fields s)"

section \<open>The examples of the README\<close>

text \<open>
  The provider on a 64-bit platform and the types the README uses. \<^verbatim>\<open>char\<close> is the
  provider's \<^verbatim>\<open>int8\<close>.
\<close>

definition ref64 :: ref_env where
  "ref64 = \<lparr>sizeof_pointer = 8, alignof_pointer = 8\<rparr>"

definition int64 :: rtype where
  "int64 = \<lparr>t_size = 8, t_alignment = 8, t_indirection = 1, t_signed = True\<rparr>"

definition uint64 :: rtype where
  "uint64 = \<lparr>t_size = 8, t_alignment = 8, t_indirection = 1, t_signed = False\<rparr>"

definition char_t :: rtype where
  "char_t = \<lparr>t_size = 1, t_alignment = 1, t_indirection = 1, t_signed = True\<rparr>"

definition uint8 :: rtype where
  "uint8 = \<lparr>t_size = 1, t_alignment = 1, t_indirection = 1, t_signed = False\<rparr>"

definition short_t :: rtype where
  "short_t = \<lparr>t_size = 2, t_alignment = 2, t_indirection = 1, t_signed = True\<rparr>"

definition int_t :: rtype where
  "int_t = \<lparr>t_size = 4, t_alignment = 4, t_indirection = 1, t_signed = True\<rparr>"

text \<open>
  The struct \<^verbatim>\<open>S\<close> of the README: declared with \<^verbatim>\<open>h: "short"\<close>, then \<^verbatim>\<open>h\<close> redefined
  as \<^verbatim>\<open>char\<close> and \<^verbatim>\<open>i\<close>, \<^verbatim>\<open>j\<close>, \<^verbatim>\<open>k\<close> redefined with the types they had.
\<close>

definition readme_fields :: "(name_arg \<times> ftype option) list" where
  "readme_fields =
     [(Name ''a'', Some (BitfieldType 7 int64)),
      (Name ''b'', Some (BitfieldType 2 int64)),
      (Name ''c'', Some (BitfieldType 2 int64)),
      (Name ''d'', Some (BitfieldType 7 char_t)),
      (Name ''e'', Some (BitfieldType 2 char_t)),
      (Name ''f'', Some (BitfieldType 2 char_t)),
      (Name ''g'', Some (BitfieldType 2 int_t)),
      (Name ''h'', Some (Plain short_t)),
      (Name ''i'', Some (BitfieldType 2 uint64)),
      (Name ''j'', Some (BitfieldType 62 int64)),
      (Name ''k'', Some (BitfieldType 1 uint64))]"

definition readme_ijk :: "(string \<times> ftype option) list" where
  "readme_ijk =
     [(''i'', Some (BitfieldType 2 uint64)),
      (''j'', Some (BitfieldType 62 int64)),
      (''k'', Some (BitfieldType 1 uint64))]"

definition readme_S0 :: "error option \<times> struct" where
  "readme_S0 = Struct ref64 readme_fields False"

definition readme_S1 :: "error option \<times> struct" where
  "readme_S1 = defineProperty ref64 (snd readme_S0) (Name ''h'') (Some (Plain char_t))"

definition readme_S :: "error option \<times> struct" where
  "readme_S = defineProperties ref64 (snd readme_S1) readme_ijk"

text \<open>Two plain fields, and the same schema after \<^verbatim>\<open>new S()\<close>.\<close>

definition two_field_S :: struct where
  "two_field_S =
     snd (Struct ref64 [(Name ''a'', Some (Plain int64)), (Name ''b'', Some (Plain char_t))] False)"

definition frozen_S :: struct where
  "frozen_S = snd (new_instance two_field_S)"

text \<open>A struct with the single field \<^verbatim>\<open>a: bitfield("uint8", 2)\<close>.\<close>

definition one_bitfield_S :: struct where
  "one_bitfield_S = snd (Struct ref64 [(Name ''a'', Some (BitfieldType 2 uint8))] False)"



section \<open>Alignments of the C types\<close>

text \<open>
  The types of C have an alignment that is a power of two and divides their size.
  \<open>unit_bytes\<close> is the number of bytes one placement of a field adds to \<^verbatim>\<open>struct.size\<close>
  (for an array, one element).
\<close>

definition is_pow2 :: "nat \<Rightarrow> bool" where
  "is_pow2 n = (\<exists>k \<in> {..n}. n = 2 ^ k)"

definition unit_bytes :: "ref_env \<Rightarrow> ftype \<Rightarrow> nat" where
  "unit_bytes ref ty =
     (case ty of
        Plain t \<Rightarrow> (if t_indirection t = 1 then t_size t else sizeof_pointer ref)
      | ArrayType d n el \<Rightarrow> (if t_indirection el = 1 then t_size el else sizeof_pointer ref)
      | BitfieldType b u \<Rightarrow> t_size u)"

text \<open>What one round of the second loop reads of the struct besides the field.\<close>

definition regs :: "struct \<Rightarrow> nat \<times> bool \<times> nat \<times> ftype option" where
  "regs s = (s_size s, s_isPacked s, s_currBits s, s_lastBitfieldType s)"

text \<open>
  A struct with one \<^verbatim>\<open>int64\<close> field, and a packed struct with one field of a type of
  size 1 and alignment 8.
\<close>

definition one_field_S :: struct where
  "one_field_S = snd (Struct ref64 [(Name ''a'', Some (Plain int64))] False)"

definition wide_aligned :: rtype where
  "wide_aligned = \<lparr>t_size = 1, t_alignment = 8, t_indirection = 1, t_signed = False\<rparr>"

definition packed_wide_S :: struct where
  "packed_wide_S = snd (Struct ref64 [(Name ''x'', Some (Plain wide_aligned))] True)"

text \<open>
  A packed struct of a field of size and alignment 4 and a field of size and alignment
  3.
\<close>

definition packed_four_three_S :: struct where
  "packed_four_three_S =
     snd (Struct ref64
            [(Name ''x'', Some (Plain \<lparr>t_size = 4, t_alignment = 4, t_indirection = 1,
                                         t_signed = False\<rparr>)),
             (Name ''y'', Some (Plain \<lparr>t_size = 3, t_alignment = 3, t_indirection = 1,
                                         t_signed = False\<rparr>))] True)"

text \<open>A packed struct of an \<^verbatim>\<open>int64\<close> and a \<^verbatim>\<open>char\<close>.\<close>

definition packed_two_S :: struct where
  "packed_two_S =
     snd (Struct ref64 [(Name ''a'', Some (Plain int64)), (Name ''b'', Some (Plain char_t))] True)"

text \<open>
  A struct with one field of a type of size 5 and alignment 4, and an array type of one
  \<^verbatim>\<open>char\<close> whose own alignment is 6.
\<close>

definition five_four_S :: struct where
  "five_four_S =
     snd (Struct ref64
            [(Name ''a'', Some (Plain \<lparr>t_size = 5, t_alignment = 4, t_indirection = 1,
                                         t_signed = False\<rparr>))] False)"

definition six_aligned_array :: ftype where
  "six_aligned_array =
     ArrayType \<lparr>t_size = 1, t_alignment = 6, t_indirection = 1, t_signed = False\<rparr> 1 char_t"

text \<open>
  A type of size 4 without an alignment, and a struct, not packed, in which a bitfield
  over it follows a bitfield over \<^verbatim>\<open>int\<close>.
\<close>

definition no_alignment4 :: rtype where
  "no_alignment4 = \<lparr>t_size = 4, t_alignment = 0, t_indirection = 1, t_signed = True\<rparr>"


section \<open>Two runs of the second loop\<close>

text \<open>
  \<open>pad_to\<close> is \<^verbatim>\<open>struct.size\<close> after the padding in front of a field of alignment \<open>a\<close>,
  and two bitfield types are of the same unit when \<^verbatim>\<open>typeDifferent\<close> is false for them.
\<close>

definition pad_to :: "bool \<Rightarrow> nat \<Rightarrow> nat \<Rightarrow> nat" where
  "pad_to packed a x = (if packed then x else x + (a - x mod a) mod a)"

definition same_unit :: "ftype \<Rightarrow> ftype \<Rightarrow> bool" where
  "same_unit l t = (size_of l = size_of t \<and> alignment_of l = alignment_of t)"

text \<open>
  The second loop has come at least as far in \<open>t\<close> as in \<open>s\<close>: the size of \<open>t\<close> is not
  smaller, and when a bitfield group is open in \<open>t\<close>, either the group open in \<open>s\<close> is of
  the same unit and has no more bits used (or lies a whole unit behind), or a new unit
  of the type of \<open>t\<close> opened at the size of \<open>s\<close> would end at or before the size of \<open>t\<close>.
\<close>

definition ahead :: "struct \<Rightarrow> struct \<Rightarrow> bool" where
  "ahead s t =
     (s_isPacked t = s_isPacked s \<and> s_size s \<le> s_size t \<and>
      (case s_lastBitfieldType t of
         None \<Rightarrow> True
       | Some l' \<Rightarrow>
           (case s_lastBitfieldType s of
              None \<Rightarrow> pad_to (s_isPacked s) (alignment_of l') (s_size s) + size_of l' \<le> s_size t
            | Some l \<Rightarrow>
                if same_unit l l'
                then s_currBits s \<le> s_currBits t \<or> s_size s + size_of l \<le> s_size t
                else pad_to (s_isPacked s) (alignment_of l') (s_size s) + size_of l' \<le> s_size t)))"

section \<open>The union rule in the words of the specification\<close>







section \<open>Access by field name\<close>

text \<open>
  \<^verbatim>\<open>instance[name]\<close> and \<^verbatim>\<open>instance[name] = v\<close> run the accessors of the field of that name;
  \<open>unit\<close> is the storage unit at the offset of the field.
\<close>

definition instance_get :: "struct \<Rightarrow> string \<Rightarrow> int \<Rightarrow> int option" where
  "instance_get s n unit =
     (case map_of (s_fields s) n of None \<Rightarrow> None | Some f \<Rightarrow> desc_get f unit)"

definition instance_set :: "struct \<Rightarrow> string \<Rightarrow> int \<Rightarrow> int \<Rightarrow> int option" where
  "instance_set s n unit v =
     (case map_of (s_fields s) n of None \<Rightarrow> None | Some f \<Rightarrow> desc_set f unit v)"

section \<open>Invariants of the second loop\<close>

text \<open>
  What \<^verbatim>\<open>recalc\<close> has assigned to a bitfield: its offset, the size of its storage unit and
  its bit position.
\<close>

definition placed_bits :: "field \<Rightarrow> (nat \<times> nat \<times> bitinfo) option" where
  "placed_bits f =
     (case f_type f of
        BitfieldType b u \<Rightarrow>
          (if b \<noteq> 0
           then (case (f_offset f, f_bitinfo f) of
                   (Some off, Some bi) \<Rightarrow> Some (off, t_size u, bi)
                 | _ \<Rightarrow> None)
           else None)
      | _ \<Rightarrow> None)"

text \<open>
  Two bitfields in declaration order: when they have the same offset they have the same
  unit size and the bits of the first end before the bits of the second begin.
\<close>

definition bits_before :: "field \<Rightarrow> field \<Rightarrow> bool" where
  "bits_before f g =
     (case (placed_bits f, placed_bits g) of
        (Some (o1, z1, b1), Some (o2, z2, b2)) \<Rightarrow>
          o1 = o2 \<longrightarrow> z1 = z2 \<and> bitStart b1 + bits b1 \<le> bitStart b2
      | _ \<Rightarrow> True)"

text \<open>
  While a group is open, \<^verbatim>\<open>struct.size\<close> is the end of its storage unit and the bits
  used fit in the unit.
\<close>

definition group_inv :: "struct \<Rightarrow> bool" where
  "group_inv s =
     (\<forall>l. s_lastBitfieldType s = Some l \<longrightarrow>
        (\<exists>off. s_lastBitfieldOffset s = Some off \<and> s_size s = off + size_of l)
        \<and> s_currBits s \<le> 8 * size_of l)"

text \<open>
  A bitfield already placed lies below \<^verbatim>\<open>struct.size\<close> and inside its unit, its mask
  has its width, and if it belongs to the open group it ends at or before the bits used.
\<close>

definition placed_inv :: "struct \<Rightarrow> field \<Rightarrow> bool" where
  "placed_inv s g =
     (\<forall>off sz bi. placed_bits g = Some (off, sz, bi) \<longrightarrow>
        off + sz \<le> s_size s \<and> 0 < sz \<and> bitStart bi + bits bi \<le> 8 * sz
        \<and> bmask bi = mk_mask (bits bi)
        \<and> (\<forall>l. s_lastBitfieldType s = Some l \<and> s_lastBitfieldOffset s = Some off \<longrightarrow>
               sz = size_of l \<and> bitStart bi + bits bi \<le> s_currBits s))"

definition layout_inv :: "struct \<Rightarrow> field list \<Rightarrow> bool" where
  "layout_inv s acc =
     (group_inv s \<and> (\<forall>g \<in> set acc. placed_inv s g) \<and> sorted_wrt bits_before acc
      \<and> (\<forall>g \<in> set acc. bits_of (f_type g) \<noteq> 0 \<longrightarrow> placed_bits g \<noteq> None))"

section \<open>The Bitfield constructor\<close>

text \<open>
  C10. A \<^verbatim>\<open>bits\<close> argument that is left out, zero or otherwise falsy gives a bitfield of
  width 1 over a type of indirection 1, and an underlying type whose indirection is not 1
  is rejected whatever the width.
\<close>

theorem Bitfield_width_default:
  "(falsy b \<and> t_indirection t = 1 \<longrightarrow> Bitfield (Some t) b = Inr (BitfieldType 1 t))
   \<and> (t_indirection t \<noteq> 1 \<longrightarrow> Bitfield (Some t) b = Inl BitfieldOverflowError)"
  by (auto simp: Bitfield_def coerceType_def)

theorem Bitfield_width_default_witness:
  "falsy Omitted \<and> falsy (JNumber 0) \<and> falsy JNaN \<and> t_indirection int64 = 1
   \<and> Bitfield (Some int64) Omitted = Inr (BitfieldType 1 int64)
   \<and> Bitfield (Some int64) (JNumber 0) = Inr (BitfieldType 1 int64)
   \<and> Bitfield (Some int64) JNaN = Inr (BitfieldType 1 int64)
   \<and> t_indirection (int64\<lparr>t_indirection := 2\<rparr>) \<noteq> 1
   \<and> Bitfield (Some (int64\<lparr>t_indirection := 2\<rparr>)) (JNumber 3) = Inl BitfieldOverflowError"
  using Bitfield_width_default [of Omitted int64]
    Bitfield_width_default [of "JNumber 0" int64]
    Bitfield_width_default [of JNaN int64]
    Bitfield_width_default [of "JNumber 3" "int64\<lparr>t_indirection := 2\<rparr>"]
  by (simp add: int64_def)

section \<open>The worked example\<close>

text \<open>
  C2, as the code computes it. For the struct of the README the layout has size 40 and
  alignment 8. The \<^verbatim>\<open>char\<close> bitfields of widths 7, 2, 2 take two one-byte units (\<^verbatim>\<open>d\<close>
  at offset 8; \<^verbatim>\<open>e\<close> and \<^verbatim>\<open>f\<close> at offset 9, since 7 + 2 exceeds 8), and the last three
  64-bit bitfields of widths 2, 62, 1 take two eight-byte units (\<^verbatim>\<open>i\<close> and \<^verbatim>\<open>j\<close> at
  offset 24, \<^verbatim>\<open>k\<close> at offset 32).
\<close>

theorem readme_layout:
  "fst readme_S0 = None \<and> fst readme_S1 = None \<and> fst readme_S = None
   \<and> s_size (snd readme_S0) = 40 \<and> s_alignment (snd readme_S0) = 8
   \<and> s_size (snd readme_S) = 40 \<and> s_alignment (snd readme_S) = 8
   \<and> layout_of (snd readme_S) =
       [(''a'', Some 0, Some 0), (''b'', Some 0, Some 7), (''c'', Some 0, Some 9),
        (''d'', Some 8, Some 0), (''e'', Some 9, Some 0), (''f'', Some 9, Some 2),
        (''g'', Some 12, Some 0), (''h'', Some 16, None),
        (''i'', Some 24, Some 0), (''j'', Some 24, Some 2), (''k'', Some 32, Some 0)]"
  by code_simp

text \<open>
  C2 as stated has the three \<^verbatim>\<open>char\<close> bitfields in one one-byte group and the last three
  bitfields in one eight-byte group. In the computed layout \<^verbatim>\<open>d\<close> and \<^verbatim>\<open>e\<close> have
  different offsets, and so have \<^verbatim>\<open>j\<close> and \<^verbatim>\<open>k\<close>.
\<close>

theorem readme_groups_counterexample:
  "offset_of (snd readme_S) ''d'' = Some 8 \<and> offset_of (snd readme_S) ''e'' = Some 9
   \<and> offset_of (snd readme_S) ''d'' \<noteq> offset_of (snd readme_S) ''e''
   \<and> offset_of (snd readme_S) ''j'' = Some 24 \<and> offset_of (snd readme_S) ''k'' = Some 32
   \<and> offset_of (snd readme_S) ''j'' \<noteq> offset_of (snd readme_S) ''k''"
  by code_simp

section \<open>Failing calls\<close>










lemma fold_alignment_step_fields: "s_fields (fold (alignment_step ref) fs s) = s_fields s"
  by (induction fs arbitrary: s) (auto simp: alignment_step_def Let_def)






section \<open>The freeze\<close>




text \<open>
  A \<^verbatim>\<open>defineProperties\<close> call with no entry adds and redefines nothing; it runs no check
  and returns normally, also on a frozen schema.
\<close>

lemma frozen_empty_defineProperties:
  "s_instanceCreated frozen_S \<and> fst (defineProperties ref64 frozen_S []) = None"
  by code_simp

section \<open>Reserved names\<close>

text \<open>
  C9 fails on the code: no check looks at the name beyond its being a string. Defining a
  field named \<^verbatim>\<open>ref.buffer\<close>, or \<^verbatim>\<open>ref\<close>, on an empty struct succeeds and the field is in
  the table.
\<close>

theorem reserved_name_accepted:
  "fst (defineProperty ref64 (empty_struct False) (Name ''ref.buffer'') (Some (Plain uint8))) = None
   \<and> map fst (s_fields (snd (defineProperty ref64 (empty_struct False) (Name ''ref.buffer'')
                              (Some (Plain uint8))))) = [''ref.buffer'']
   \<and> fst (defineProperty ref64 (empty_struct False) (Name ''ref'') (Some (Plain uint8))) = None
   \<and> map fst (s_fields (snd (defineProperty ref64 (empty_struct False) (Name ''ref'')
                              (Some (Plain uint8))))) = [''ref'']"
  by code_simp

section \<open>The layout of a union\<close>











section \<open>Bit arithmetic of the accessors\<close>

lemma mk_mask_eq: "mk_mask n = mask n"
proof (induction n)
  case 0 then show ?case by simp
next
  case (Suc n)
  then show ?case
    by (simp add: mask_Suc_double push_bit_eq_mult or.commute mult.commute)
qed

lemma asIntN_eq: "0 < n \<Longrightarrow> asIntN n x = signed_take_bit (n - 1) x"
proof -
  assume n: "0 < n"
  then obtain m where m: "n = Suc m" by (cases n) auto
  have r: "x mod 2 ^ Suc m = take_bit (Suc m) x" by (simp add: take_bit_eq_mod)
  have split: "take_bit (Suc m) x = 2 ^ m * of_bool (bit x m) + take_bit m x"
    by (rule take_bit_Suc_from_most)
  have lo: "0 \<le> take_bit m x" "take_bit m x < 2 ^ m" by simp_all
  have ge: "(2 ^ m \<le> take_bit (Suc m) x) = bit x m"
  proof (cases "bit x m")
    case True
    with split have "take_bit (Suc m) x = 2 ^ m + take_bit m x" by simp
    with lo(1) True show ?thesis by linarith
  next
    case False
    with split have "take_bit (Suc m) x = take_bit m x" by simp
    with lo(2) False show ?thesis by linarith
  qed
  have "asIntN (Suc m) x = take_bit (Suc m) x - 2 ^ Suc m * of_bool (bit x m)"
    unfolding asIntN_def Let_def r using ge by simp
  also have "\<dots> = signed_take_bit m x"
    by (simp add: signed_take_bit_eq_take_bit_minus)
  finally show ?thesis by (simp add: m)
qed

lemma bit_asIntN: "k < n \<Longrightarrow> bit (asIntN n x) k = bit x k"
proof -
  assume k: "k < n"
  then have "min (n - 1) k = k" by simp
  with k show ?thesis by (simp add: asIntN_eq bit_simps)
qed

lemma bit_ref_get: "k < 8 * t_size u \<Longrightarrow> bit (ref_get u x) k = bit x k"
  by (simp add: ref_get_def bit_asIntN flip: take_bit_eq_mod) (simp add: bit_simps)

lemma bit_ref_set: "ref_set u x = Some y \<Longrightarrow> k < 8 * t_size u \<Longrightarrow> bit y k = bit x k"
  by (auto simp: ref_set_def bit_simps split: if_splits simp flip: take_bit_eq_mod)

lemma asIntN_in_range:
  assumes "t_signed u" "0 < t_size u"
  shows "in_range u (asIntN (8 * t_size u) x)"
proof -
  have w: "0 < 8 * t_size u" using assms by simp
  have "asIntN (8 * t_size u) x = signed_take_bit (8 * t_size u - 1) x"
    using w by (rule asIntN_eq)
  moreover have "signed_take_bit (8 * t_size u - 1) x < 2 ^ (8 * t_size u - 1)"
    by (rule signed_take_bit_int_less_exp)
  moreover have "- (2 ^ (8 * t_size u - 1)) \<le> signed_take_bit (8 * t_size u - 1) x"
    by (rule signed_take_bit_int_greater_eq_minus_exp)
  ultimately show ?thesis using assms by (simp add: in_range_def)
qed

lemma or_in_range:
  assumes "\<not> t_signed u" "bs + b \<le> 8 * t_size u"
  shows "in_range u (ref_get u unit OR push_bit bs (v AND mask b))"
proof -
  let ?w = "8 * t_size u"
  have g: "ref_get u unit = take_bit ?w unit"
    using assms by (simp add: ref_get_def take_bit_eq_mod)
  have a0: "0 \<le> take_bit ?w unit" "take_bit ?w unit < 2 ^ ?w" by simp_all
  have f: "v AND mask b = take_bit b v" by (simp add: take_bit_eq_mask)
  have b0: "0 \<le> push_bit bs (take_bit b v)" by simp
  have "push_bit bs (take_bit b v) < 2 ^ (bs + b)"
    by (simp add: push_bit_eq_mult power_add)
  also have "\<dots> \<le> 2 ^ ?w" using assms(2) by (intro power_increasing) simp_all
  finally have b1: "push_bit bs (take_bit b v) < 2 ^ ?w" .
  have "take_bit ?w unit OR push_bit bs (take_bit b v) < 2 ^ ?w"
    using a0 b1 by (intro OR_upper) simp_all
  moreover have "0 \<le> take_bit ?w unit OR push_bit bs (take_bit b v)"
    using a0 b0 by simp
  ultimately show ?thesis using assms(1) by (simp add: in_range_def g f)
qed

lemma bitfield_set_some:
  assumes ma: "bmask ba = mk_mask (bits ba)"
      and ina: "bitStart ba + bits ba \<le> 8 * t_size ua"
      and pos: "0 < t_size ua"
  shows "\<exists>x. bitfield_set ua ba unit v = Some x
           \<and> (\<forall>k < 8 * t_size ua.
                 bit x k = bit (ref_get ua unit OR push_bit (bitStart ba) (v AND bmask ba)) k)"
proof -
  let ?v1 = "ref_get ua unit OR push_bit (bitStart ba) (v AND bmask ba)"
  let ?v2 = "if t_signed ua then asIntN (8 * t_size ua) ?v1 else ?v1"
  have r: "in_range ua ?v2"
    using asIntN_in_range[OF _ pos] or_in_range[OF _ ina] by (simp add: ma mk_mask_eq)
  then obtain x where x: "ref_set ua ?v2 = Some x" by (simp add: ref_set_def)
  have "bit x k = bit ?v1 k" if "k < 8 * t_size ua" for k
    using bit_ref_set[OF x that] that by (simp add: bit_asIntN)
  moreover have "bitfield_set ua ba unit v = Some x"
    unfolding bitfield_set_def Let_def by (rule x)
  ultimately show ?thesis by blast
qed

lemma bitfield_set_frame:
  assumes sz: "t_size ua = t_size ub"
      and ma: "bmask ba = mk_mask (bits ba)"
      and ina: "bitStart ba + bits ba \<le> 8 * t_size ua"
      and pos: "0 < t_size ua"
      and disj: "bitStart ba + bits ba \<le> bitStart bb \<or> bitStart bb + bits bb \<le> bitStart ba"
      and inb: "bitStart bb + bits bb \<le> 8 * t_size ub"
      and mb: "bmask bb = mk_mask (bits bb)"
  shows "\<exists>x. bitfield_set ua ba unit v = Some x
           \<and> bitfield_get ub bb x = bitfield_get ub bb unit"
proof -
  from bitfield_set_some[OF ma ina pos, of unit v] obtain x where
    x: "bitfield_set ua ba unit v = Some x"
    and bx: "\<And>k. k < 8 * t_size ua \<Longrightarrow>
               bit x k = bit (ref_get ua unit OR push_bit (bitStart ba) (v AND bmask ba)) k"
    by blast
  have key: "bit x k = bit unit k" if k: "bitStart bb \<le> k" "k < bitStart bb + bits bb" for k
  proof -
    from k inb sz have kw: "k < 8 * t_size ua" by simp
    from k disj have out: "\<not> (bitStart ba \<le> k \<and> k - bitStart ba < bits ba)" by auto
    have "bit x k = bit (ref_get ua unit OR push_bit (bitStart ba) (v AND bmask ba)) k"
      using kw by (rule bx)
    also have "\<dots> = bit (ref_get ua unit) k"
      using out by (auto simp: bit_simps ma mk_mask_eq)
    also have "\<dots> = bit unit k" using kw by (rule bit_ref_get)
    finally show ?thesis .
  qed
  have "drop_bit (bitStart bb) (ref_get ub x) AND bmask bb
      = drop_bit (bitStart bb) (ref_get ub unit) AND bmask bb"
  proof (rule bit_eqI)
    fix n
    show "bit (drop_bit (bitStart bb) (ref_get ub x) AND bmask bb) n
        = bit (drop_bit (bitStart bb) (ref_get ub unit) AND bmask bb) n"
    proof (cases "n < bits bb")
      case True
      with inb have "bitStart bb + n < 8 * t_size ub" by simp
      then show ?thesis
        using key[of "bitStart bb + n"] True by (simp add: bit_simps mb mk_mask_eq bit_ref_get)
    next
      case False
      then show ?thesis by (simp add: bit_simps mb mk_mask_eq)
    qed
  qed
  then have "bitfield_get ub bb x = bitfield_get ub bb unit"
    by (simp add: bitfield_get_def Let_def)
  with x show ?thesis by blast
qed

text \<open>
  What the accessors do guarantee: when the bits of the field are all zero in the unit,
  as in a fresh buffer, a value in the range of the field is read back as written.
\<close>

lemma bitfield_round_trip_clear:
  assumes w: "0 < bits bi" and inb: "bitStart bi + bits bi \<le> 8 * t_size u"
      and m: "bmask bi = mk_mask (bits bi)"
      and clear: "\<forall>k. bitStart bi \<le> k \<and> k < bitStart bi + bits bi \<longrightarrow> \<not> bit unit k"
      and rng: "if t_signed u then - (2 ^ (bits bi - 1)) \<le> v \<and> v < 2 ^ (bits bi - 1)
                else 0 \<le> v \<and> v < 2 ^ bits bi"
  shows "\<exists>x. bitfield_set u bi unit v = Some x \<and> bitfield_get u bi x = v"
proof -
  from w inb have pos: "0 < t_size u" by (cases "t_size u") auto
  from bitfield_set_some[OF m inb pos, of unit v] obtain x where
    x: "bitfield_set u bi unit v = Some x"
    and bx: "\<And>k. k < 8 * t_size u \<Longrightarrow>
               bit x k = bit (ref_get u unit OR push_bit (bitStart bi) (v AND bmask bi)) k"
    by blast
  have key: "bit x (bitStart bi + k) = bit v k" if k: "k < bits bi" for k
  proof -
    from k inb have kw: "bitStart bi + k < 8 * t_size u" by simp
    have "bit x (bitStart bi + k)
        = bit (ref_get u unit OR push_bit (bitStart bi) (v AND bmask bi)) (bitStart bi + k)"
      using kw by (rule bx)
    also have "\<dots> = (bit unit (bitStart bi + k) \<or> bit v k)"
      using k kw by (simp add: bit_simps m mk_mask_eq bit_ref_get)
    also have "\<dots> = bit v k" using clear k by simp
    finally show ?thesis .
  qed
  have inner: "drop_bit (bitStart bi) (ref_get u x) AND bmask bi = take_bit (bits bi) v"
  proof (rule bit_eqI)
    fix n
    show "bit (drop_bit (bitStart bi) (ref_get u x) AND bmask bi) n = bit (take_bit (bits bi) v) n"
    proof (cases "n < bits bi")
      case True
      with inb have "bitStart bi + n < 8 * t_size u" by simp
      then show ?thesis using key[OF True] True by (simp add: bit_simps m mk_mask_eq bit_ref_get)
    next
      case False
      then show ?thesis by (simp add: bit_simps m mk_mask_eq)
    qed
  qed
  have "bitfield_get u bi x = v"
  proof (cases "t_signed u")
    case True
    with rng have r: "- (2 ^ (bits bi - 1)) \<le> v" "v < 2 ^ (bits bi - 1)" by simp_all
    have "asIntN (bits bi) (take_bit (bits bi) v) = signed_take_bit (bits bi - 1) (take_bit (bits bi) v)"
      using w by (rule asIntN_eq)
    also have "\<dots> = signed_take_bit (bits bi - 1) v"
      using w by (intro bit_eqI) (auto simp: bit_simps min_def)
    also have "\<dots> = v" using r by (simp add: signed_take_bit_int_eq_self)
    finally show ?thesis using True by (simp add: bitfield_get_def Let_def inner)
  next
    case False
    with rng have "take_bit (bits bi) v = v" by (simp add: take_bit_int_eq_self)
    with False show ?thesis by (simp add: bitfield_get_def Let_def inner)
  qed
  with x show ?thesis by blast
qed

text \<open>
  C1 fails on the code: the setter ORs the new bits into the unit and never clears the
  old ones. On the struct with the single field \<^verbatim>\<open>a: bitfield("uint8", 2)\<close> and a zeroed
  buffer, \<^verbatim>\<open>a = 3\<close> stores 3; then \<^verbatim>\<open>a = 0\<close> leaves 3 in the unit and \<^verbatim>\<open>a\<close> reads 3.
\<close>

theorem bitfield_set_keeps_old_bits:
  "layout_of one_bitfield_S = [(''a'', Some 0, Some 0)]
   \<and> instance_set one_bitfield_S ''a'' 0 3 = Some 3
   \<and> instance_set one_bitfield_S ''a'' 3 0 = Some 3
   \<and> instance_get one_bitfield_S ''a'' 3 = Some 3"
  by code_simp

section \<open>Bitfields of one storage unit\<close>

lemma addType_ok:
  "addType ref s t = (None, s', off) \<Longrightarrow>
     s_size s \<le> s_size s' \<and> s_lastBitfieldType s' = s_lastBitfieldType s
     \<and> s_lastBitfieldOffset s' = s_lastBitfieldOffset s \<and> s_currBits s' = s_currBits s
     \<and> s_isPacked s' = s_isPacked s \<and> s_alignment s' = s_alignment s"
  by (auto simp: addType_def Let_def split: if_splits)

lemma addType_times_ok:
  "addType_times ref s t k = (None, s') \<Longrightarrow>
     s_size s \<le> s_size s' \<and> s_lastBitfieldType s' = s_lastBitfieldType s
     \<and> s_lastBitfieldOffset s' = s_lastBitfieldOffset s \<and> s_currBits s' = s_currBits s
     \<and> s_isPacked s' = s_isPacked s \<and> s_alignment s' = s_alignment s"
proof (induction k arbitrary: s)
  case 0 then show ?case by simp
next
  case (Suc k)
  then obtain s1 off where a: "addType ref s t = (None, s1, off)" and r: "addType_times ref s1 t k = (None, s')"
    by (auto split: prod.splits option.splits)
  from addType_ok[OF a] Suc.IH[OF r] show ?case by simp
qed

lemma placed_inv_mono:
  "placed_inv s g \<Longrightarrow> s_size s \<le> s_size s' \<Longrightarrow> s_lastBitfieldType s' = None \<Longrightarrow> placed_inv s' g"
  by (fastforce simp: placed_inv_def)

lemma place_plain_ok:
  assumes "place_plain ref s f t = (None, s', f')"
  shows "s_size s \<le> s_size s' \<and> s_lastBitfieldType s' = s_lastBitfieldType s
         \<and> f_type f' = f_type f"
  using assms by (auto simp: place_plain_def split: prod.splits option.splits dest: addType_ok)

lemma place_nonbits_inv:
  assumes pf: "place_field ref s f = (None, s', f')" and nb: "bits_of (f_type f) = 0"
      and inv: "layout_inv s acc"
  shows "layout_inv s' (acc @ [f'])"
proof -
  let ?c = "clearBitfieldSettings s"
  have c: "s_size ?c = s_size s" "s_lastBitfieldType ?c = None"
    by (simp_all add: clearBitfieldSettings_def)
  have st: "s_size s \<le> s_size s' \<and> s_lastBitfieldType s' = None \<and> f_type f' = f_type f"
  proof (cases "f_type f")
    case (Plain t)
    with pf nb have "place_plain ref ?c f t = (None, s', f')" by (simp add: place_field_def)
    from place_plain_ok[OF this] c show ?thesis by simp
  next
    case (ArrayType d n el)
    with pf nb obtain s1 off where a: "addType ref ?c el = (None, s1, off)"
      and r: "addType_times ref s1 el (n - 1) = (None, s')" and f': "f' = f\<lparr>f_offset := Some off\<rparr>"
      by (auto simp: place_field_def split: prod.splits option.splits)
    from addType_ok[OF a] addType_times_ok[OF r] c f' show ?thesis by simp
  next
    case (BitfieldType b u)
    with nb have "b = 0" by simp
    with pf BitfieldType have "place_plain ref ?c f (u\<lparr>t_indirection := 1\<rparr>) = (None, s', f')"
      by (simp add: place_field_def)
    from place_plain_ok[OF this] c show ?thesis by simp
  qed
  have np: "placed_bits f' = None"
    using st nb by (cases "f_type f") (auto simp: placed_bits_def)
  have g: "group_inv s'" using st by (simp add: group_inv_def)
  have a: "\<forall>g \<in> set acc. placed_inv s' g"
    using inv st by (auto simp: layout_inv_def intro: placed_inv_mono)
  have n: "placed_inv s' f'" using np by (simp add: placed_inv_def)
  have sw: "sorted_wrt bits_before (acc @ [f'])"
    using inv np by (auto simp: layout_inv_def sorted_wrt_append bits_before_def split: option.splits)
  have pb: "\<forall>g \<in> set (acc @ [f']). bits_of (f_type g) \<noteq> 0 \<longrightarrow> placed_bits g \<noteq> None"
    using inv st nb by (auto simp: layout_inv_def)
  from g a n sw pb show ?thesis by (simp add: layout_inv_def)
qed

lemma place_bitfield_cases:
  assumes "place_bitfield s f = (None, s', f')"
  shows "bits_of (f_type f) \<le> 8 * size_of (f_type f) \<and> f_type f' = f_type f
     \<and> s_lastBitfieldType s' = Some (f_type f) \<and> s_isPacked s' = s_isPacked s
     \<and> s_alignment s' = s_alignment s
     \<and> ((\<exists>off. s_size s \<le> off \<and> f_offset f' = Some off
             \<and> f_bitinfo f' = Some \<lparr>bitStart = 0, bits = bits_of (f_type f),
                                      bmask = mk_mask (bits_of (f_type f))\<rparr>
             \<and> s_size s' = off + size_of (f_type f) \<and> s_lastBitfieldOffset s' = Some off
             \<and> s_currBits s' = bits_of (f_type f))
        \<or> (\<exists>l. s_lastBitfieldType s = Some l \<and> size_of l = size_of (f_type f)
             \<and> alignment_of l = alignment_of (f_type f)
             \<and> s_currBits s + bits_of (f_type f) \<le> 8 * size_of (f_type f)
             \<and> f_offset f' = s_lastBitfieldOffset s
             \<and> f_bitinfo f' = Some \<lparr>bitStart = s_currBits s, bits = bits_of (f_type f),
                                      bmask = mk_mask (bits_of (f_type f))\<rparr>
             \<and> s_size s' = s_size s \<and> s_lastBitfieldOffset s' = s_lastBitfieldOffset s
             \<and> s_currBits s' = s_currBits s + bits_of (f_type f)))"
proof -
  from assms have le: "bits_of (f_type f) \<le> size_of (f_type f) * 8"
    by (auto simp: place_bitfield_def Let_def split: if_splits)
  show ?thesis
  proof (cases "s_lastBitfieldType s")
    case None
    with assms le show ?thesis
      by (auto simp: place_bitfield_def Let_def mult.commute split: if_splits)
  next
    case (Some l)
    show ?thesis
    proof (cases "size_of l \<noteq> size_of (f_type f) \<or> alignment_of l \<noteq> alignment_of (f_type f)")
      case True
      with assms le Some show ?thesis
        by (auto simp: place_bitfield_def Let_def mult.commute split: if_splits)
    next
      case False
      show ?thesis
      proof (cases "s_currBits s + bits_of (f_type f) > 8 * size_of (f_type f)")
        case True
        with assms le Some False show ?thesis
          by (auto simp: place_bitfield_def Let_def mult.commute split: if_splits)
      next
        case nf: False
        with assms le Some False show ?thesis
          by (auto simp: place_bitfield_def Let_def mult.commute split: if_splits)
      qed
    qed
  qed
qed

lemma place_bits_inv:
  assumes pf: "place_field ref s f = (None, s', f')" and nb: "bits_of (f_type f) \<noteq> 0"
      and inv: "layout_inv s acc"
  shows "layout_inv s' (acc @ [f'])"
proof -
  obtain b u where ty: "f_type f = BitfieldType b u" and b: "b \<noteq> 0"
    using nb by (cases "f_type f") auto
  with pf have pb: "place_bitfield s f = (None, s', f')"
    by (simp add: place_field_def)
  note c = place_bitfield_cases[OF pb, unfolded ty, simplified]
  from c b have szpos: "0 < t_size u" by (cases "t_size u") auto
  from inv have ginv: "group_inv s" and ainv: "\<forall>g \<in> set acc. placed_inv s g"
    and sw: "sorted_wrt bits_before acc"
    and pbs: "\<forall>g \<in> set acc. bits_of (f_type g) \<noteq> 0 \<longrightarrow> placed_bits g \<noteq> None"
    by (simp_all add: layout_inv_def)
  from c consider
    (first) off where "s_size s \<le> off" "f_offset f' = Some off"
        "f_bitinfo f' = Some \<lparr>bitStart = 0, bits = b, bmask = mk_mask b\<rparr>"
        "s_size s' = off + t_size u" "s_lastBitfieldOffset s' = Some off" "s_currBits s' = b"
  | (cont) l where "s_lastBitfieldType s = Some l" "size_of l = t_size u"
        "s_currBits s + b \<le> 8 * t_size u" "f_offset f' = s_lastBitfieldOffset s"
        "f_bitinfo f' = Some \<lparr>bitStart = s_currBits s, bits = b, bmask = mk_mask b\<rparr>"
        "s_size s' = s_size s" "s_lastBitfieldOffset s' = s_lastBitfieldOffset s"
        "s_currBits s' = s_currBits s + b"
    by blast
  then show ?thesis
  proof cases
    case first
    have pl: "placed_bits f' = Some (off, t_size u, \<lparr>bitStart = 0, bits = b, bmask = mk_mask b\<rparr>)"
      using c first b by (simp add: placed_bits_def ty)
    have g: "group_inv s'" using c first by (simp add: group_inv_def)
    have old: "placed_inv s' g \<and> bits_before g f'" if "g \<in> set acc" for g
    proof -
      from ainv that have pg: "placed_inv s g" by simp
      show ?thesis
      proof (cases "placed_bits g")
        case None
        then show ?thesis by (simp add: placed_inv_def bits_before_def)
      next
        case (Some p)
        obtain o1 z1 b1 where p: "p = (o1, z1, b1)" by (cases p) auto
        from pg Some p have h: "o1 + z1 \<le> s_size s" "0 < z1" "bitStart b1 + bits b1 \<le> 8 * z1"
          "bmask b1 = mk_mask (bits b1)" by (auto simp: placed_inv_def)
        then have ne: "o1 \<noteq> off" using first(1) by simp
        have "placed_inv s' g"
          using Some p h ne first c by (auto simp: placed_inv_def)
        moreover have "bits_before g f'"
          using Some p pl ne by (simp add: bits_before_def)
        ultimately show ?thesis by simp
      qed
    qed
    have n: "placed_inv s' f'"
      using pl c first szpos by (auto simp: placed_inv_def)
    have "sorted_wrt bits_before (acc @ [f'])"
      using sw old by (simp add: sorted_wrt_append)
    with g old n pbs pl show ?thesis by (simp add: layout_inv_def)
  next
    case cont
    from ginv cont obtain off where off: "s_lastBitfieldOffset s = Some off"
      and sz: "s_size s = off + t_size u" and cb: "s_currBits s \<le> 8 * t_size u"
      by (auto simp: group_inv_def)
    have pl: "placed_bits f' = Some (off, t_size u, \<lparr>bitStart = s_currBits s, bits = b, bmask = mk_mask b\<rparr>)"
      using c cont b off by (simp add: placed_bits_def ty)
    have g: "group_inv s'" using c cont off sz by (simp add: group_inv_def)
    have old: "placed_inv s' g \<and> bits_before g f'" if "g \<in> set acc" for g
    proof -
      from ainv that have pg: "placed_inv s g" by simp
      show ?thesis
      proof (cases "placed_bits g")
        case None
        then show ?thesis by (simp add: placed_inv_def bits_before_def)
      next
        case (Some p)
        obtain o1 z1 b1 where p: "p = (o1, z1, b1)" by (cases p) auto
        from pg Some p have h: "o1 + z1 \<le> s_size s" "0 < z1" "bitStart b1 + bits b1 \<le> 8 * z1"
          "bmask b1 = mk_mask (bits b1)"
          "o1 = off \<longrightarrow> z1 = t_size u \<and> bitStart b1 + bits b1 \<le> s_currBits s"
          using cont off by (auto simp: placed_inv_def)
        have "placed_inv s' g"
          using Some p h cont c off by (auto simp: placed_inv_def)
        moreover have "bits_before g f'"
          using Some p pl h by (simp add: bits_before_def)
        ultimately show ?thesis by simp
      qed
    qed
    have n: "placed_inv s' f'"
      using pl c cont szpos sz off by (auto simp: placed_inv_def)
    have "sorted_wrt bits_before (acc @ [f'])"
      using sw old by (simp add: sorted_wrt_append)
    with g old n pbs pl show ?thesis by (simp add: layout_inv_def)
  qed
qed

lemma place_field_inv:
  "place_field ref s f = (None, s', f') \<Longrightarrow> layout_inv s acc \<Longrightarrow> layout_inv s' (acc @ [f'])"
  using place_nonbits_inv place_bits_inv by (cases "bits_of (f_type f) = 0") blast+

lemma second_pass_inv:
  "second_pass ref s fs = (None, s', out) \<Longrightarrow> layout_inv s acc \<Longrightarrow>
     layout_inv s' (acc @ map snd out)"
proof (induction fs arbitrary: s acc out)
  case Nil
  then show ?case by simp
next
  case (Cons nf rest)
  from Cons.prems(1) obtain s1 f' rest' where
    pf: "place_field ref s (snd nf) = (None, s1, f')"
    and sp: "second_pass ref s1 rest = (None, s', rest')"
    and out: "out = (fst nf, f') # rest'"
    by (auto split: prod.splits option.splits)
  from place_field_inv[OF pf Cons.prems(2)] have "layout_inv s1 (acc @ [f'])" .
  from Cons.IH[OF sp this] out show ?case by simp
qed

lemma layout_inv_init:
  "layout_inv (fold (alignment_step ref) fs (clearBitfieldSettings s)) []"
proof -
  have "s_lastBitfieldType (fold (alignment_step ref) fs s0) = s_lastBitfieldType s0" for s0
    by (induction fs arbitrary: s0) (auto simp: alignment_step_def Let_def)
  then show ?thesis
    by (simp add: layout_inv_def group_inv_def clearBitfieldSettings_def)
qed

lemma recalc_layout_inv:
  assumes "recalc ref s = (None, s')"
  shows "\<exists>s2. layout_inv s2 (map snd (s_fields s'))"
proof -
  let ?s0 = "clearBitfieldSettings (s\<lparr>s_size := 0, s_alignment := 0\<rparr>)"
  let ?s1 = "fold (alignment_step ref) (s_fields ?s0) ?s0"
  from assms obtain s2 fs where sp: "second_pass ref ?s1 (s_fields ?s1) = (None, s2, fs)"
    and s': "s' = addFinalPadding (s2\<lparr>s_fields := fs\<rparr>)"
    by (auto simp: recalc_def Let_def split: prod.splits option.splits)
  have "layout_inv ?s1 []" by (rule layout_inv_init)
  from second_pass_inv[OF sp this] have "layout_inv s2 (map snd fs)" by simp
  moreover have "s_fields s' = fs" by (simp add: s' addFinalPadding_def Let_def)
  ultimately show ?thesis by auto
qed

lemma sorted_wrt_two:
  assumes "sorted_wrt P xs" "i < length xs" "j < length xs" "i \<noteq> j"
  shows "P (xs ! i) (xs ! j) \<or> P (xs ! j) (xs ! i)"
  using assms by (cases "i < j") (auto simp: sorted_wrt_iff_nth_less)

text \<open>
  C7. In a layout that \<^verbatim>\<open>recalc\<close> has computed, let \<^verbatim>\<open>a\<close> and \<^verbatim>\<open>b\<close> be two different
  bitfields with the same offset, hence in the same storage unit. Whatever the unit
  holds and whatever value is written to \<^verbatim>\<open>a\<close>, the write succeeds and \<^verbatim>\<open>b\<close> reads the
  same value after it as before.
\<close>

theorem sibling_bits_isolated:
  assumes rc: "recalc ref s = (None, s')"
      and ne: "a \<noteq> b"
      and fa: "map_of (s_fields s') a = Some fa"
      and fb: "map_of (s_fields s') b = Some fb"
      and ba: "bits_of (f_type fa) \<noteq> 0"
      and bb: "bits_of (f_type fb) \<noteq> 0"
      and off: "f_offset fa = f_offset fb"
  shows "\<exists>x y. instance_set s' a unit v = Some x \<and> instance_get s' b unit = Some y
               \<and> instance_get s' b x = Some y"
proof -
  from recalc_layout_inv[OF rc] obtain s2 where inv: "layout_inv s2 (map snd (s_fields s'))" ..
  let ?xs = "map snd (s_fields s')"
  from fa have "(a, fa) \<in> set (s_fields s')" by (rule map_of_SomeD)
  then obtain i where i: "i < length (s_fields s')" "s_fields s' ! i = (a, fa)"
    by (auto simp: in_set_conv_nth)
  from fb have "(b, fb) \<in> set (s_fields s')" by (rule map_of_SomeD)
  then obtain j where j: "j < length (s_fields s')" "s_fields s' ! j = (b, fb)"
    by (auto simp: in_set_conv_nth)
  from i j ne have ij: "i \<noteq> j" by auto
  have xi: "?xs ! i = fa" and xj: "?xs ! j = fb" using i j by simp_all
  have ina: "fa \<in> set ?xs" and inb: "fb \<in> set ?xs"
    using i j xi xj by (metis length_map nth_mem)+
  from inv have sw: "sorted_wrt bits_before ?xs" by (simp add: layout_inv_def)
  from sorted_wrt_two[OF sw, of i j] i j ij xi xj
  have ord: "bits_before fa fb \<or> bits_before fb fa" by simp
  from inv ina ba obtain oa za bia where pa: "placed_bits fa = Some (oa, za, bia)"
    by (auto simp: layout_inv_def)
  from inv inb bb obtain ob zb bib where pb: "placed_bits fb = Some (ob, zb, bib)"
    by (auto simp: layout_inv_def)
  from pa obtain wa ua where ta: "f_type fa = BitfieldType wa ua" "wa \<noteq> 0" "f_offset fa = Some oa"
      "f_bitinfo fa = Some bia" "za = t_size ua"
    by (auto simp: placed_bits_def split: ftype.splits if_splits option.splits)
  from pb obtain wb ub where tb: "f_type fb = BitfieldType wb ub" "wb \<noteq> 0" "f_offset fb = Some ob"
      "f_bitinfo fb = Some bib" "zb = t_size ub"
    by (auto simp: placed_bits_def split: ftype.splits if_splits option.splits)
  from off ta tb have oo: "oa = ob" by simp
  from ord pa pb oo have sz: "za = zb"
    and disj: "bitStart bia + bits bia \<le> bitStart bib \<or> bitStart bib + bits bib \<le> bitStart bia"
    by (auto simp: bits_before_def)
  from inv ina pa have ma: "bmask bia = mk_mask (bits bia)"
    and fit_a: "bitStart bia + bits bia \<le> 8 * za" and pos_a: "0 < za"
    by (auto simp: layout_inv_def placed_inv_def)
  from inv inb pb have mb: "bmask bib = mk_mask (bits bib)"
    and inb: "bitStart bib + bits bib \<le> 8 * zb"
    by (auto simp: layout_inv_def placed_inv_def)
  have "\<exists>x. bitfield_set ua bia unit v = Some x
          \<and> bitfield_get ub bib x = bitfield_get ub bib unit"
    using sz ta(5) tb(5) ma mb disj inb fit_a pos_a by (intro bitfield_set_frame) simp_all
  then show ?thesis
    using fa fb ta tb by (auto simp: instance_set_def instance_get_def desc_set_def desc_get_def)
qed

theorem sibling_bits_isolated_witness:
  "recalc ref64 (snd readme_S) = (None, snd readme_S)
   \<and> offset_of (snd readme_S) ''i'' = Some 24 \<and> offset_of (snd readme_S) ''j'' = Some 24
   \<and> (\<exists>x y. instance_set (snd readme_S) ''j'' 3 (- 5) = Some x
            \<and> instance_get (snd readme_S) ''i'' 3 = Some y
            \<and> instance_get (snd readme_S) ''i'' x = Some y)"
proof -
  have rc: "recalc ref64 (snd readme_S) = (None, snd readme_S)" by code_simp
  have fj: "map_of (s_fields (snd readme_S)) ''j''
      = Some \<lparr>f_type = BitfieldType 62 int64, f_offset = Some 24,
              f_bitinfo = Some \<lparr>bitStart = 2, bits = 62, bmask = 4611686018427387903\<rparr>\<rparr>"
    by code_simp
  have fi: "map_of (s_fields (snd readme_S)) ''i''
      = Some \<lparr>f_type = BitfieldType 2 uint64, f_offset = Some 24,
              f_bitinfo = Some \<lparr>bitStart = 0, bits = 2, bmask = 3\<rparr>\<rparr>"
    by code_simp
  have o: "offset_of (snd readme_S) ''i'' = Some 24 \<and> offset_of (snd readme_S) ''j'' = Some 24"
    by code_simp
  from sibling_bits_isolated [OF rc _ fj fi, of 3 "- 5"] o rc show ?thesis by simp
qed

section \<open>Bitfield groups\<close>

lemma second_pass_append:
  "second_pass ref s (xs @ ys) =
     (case second_pass ref s xs of
        (Some e, s1, xs') \<Rightarrow> (Some e, s1, xs' @ ys)
      | (None, s1, xs') \<Rightarrow>
          (case second_pass ref s1 ys of (r, s2, ys') \<Rightarrow> (r, s2, xs' @ ys')))"
  by (induction xs arbitrary: s) (auto split: prod.splits option.splits)




lemma fold_alignment_step_regs:
  "s_isPacked (fold (alignment_step ref) fs s) = s_isPacked s
   \<and> s_size (fold (alignment_step ref) fs s) = s_size s
   \<and> s_currBits (fold (alignment_step ref) fs s) = s_currBits s
   \<and> s_lastBitfieldType (fold (alignment_step ref) fs s) = s_lastBitfieldType s"
  by (induction fs arbitrary: s) (auto simp: alignment_step_def Let_def)

lemma pad_aligned:
  fixes x a :: nat
  assumes "0 < a"
  shows "a dvd x + (a - x mod a) mod a"
proof (cases "x mod a = 0")
  case True then show ?thesis by (simp add: dvd_eq_mod_eq_0)
next
  case False
  with assms have lt: "a - x mod a < a" by simp
  have "x mod a < a" using assms by simp
  then have "(x + (a - x mod a)) mod a = (x mod a + (a - x mod a)) mod a"
    by (metis mod_add_left_eq)
  also have "\<dots> = 0" using \<open>x mod a < a\<close> by simp
  finally show ?thesis using lt by (simp add: dvd_eq_mod_eq_0)
qed






section \<open>Size when a field is added\<close>

lemma is_pow2_iff: "is_pow2 n \<longleftrightarrow> (\<exists>k. n = 2 ^ k)"
proof
  assume "is_pow2 n" then show "\<exists>k. n = 2 ^ k" by (auto simp: is_pow2_def)
next
  assume "\<exists>k. n = 2 ^ k"
  then obtain k where k: "n = 2 ^ k" ..
  have "k < 2 ^ k" by (rule less_exp)
  with k show "is_pow2 n" by (auto simp: is_pow2_def intro!: bexI[of _ k])
qed

lemma pow2_dvd: "is_pow2 a \<Longrightarrow> is_pow2 b \<Longrightarrow> a \<le> b \<Longrightarrow> a dvd b"
proof -
  assume "is_pow2 a" "is_pow2 b" and le: "a \<le> b"
  then obtain i j where a: "a = 2 ^ i" and b: "b = 2 ^ j" by (auto simp: is_pow2_iff)
  from le a b have "i \<le> j" by simp
  then show ?thesis unfolding a b by (rule le_imp_power_dvd)
qed

lemma pow2_pos: "is_pow2 a \<Longrightarrow> 0 < a"
  by (auto simp: is_pow2_iff)

subsection \<open>The registers of the second loop depend on the types only\<close>

lemma addType_cong:
  assumes "regs s = regs t"
  shows "fst (addType ref s ty) = fst (addType ref t ty)
       \<and> regs (fst (snd (addType ref s ty))) = regs (fst (snd (addType ref t ty)))"
  using assms by (auto simp: addType_def Let_def regs_def)

lemma addType_times_cong:
  assumes "regs s = regs t"
  shows "fst (addType_times ref s ty k) = fst (addType_times ref t ty k)
       \<and> regs (snd (addType_times ref s ty k)) = regs (snd (addType_times ref t ty k))"
  using assms
proof (induction k arbitrary: s t)
  case 0 then show ?case by simp
next
  case (Suc k)
  obtain r1 s1 o1 where a1: "addType ref s ty = (r1, s1, o1)" by (cases "addType ref s ty") auto
  obtain r2 t1 o2 where a2: "addType ref t ty = (r2, t1, o2)" by (cases "addType ref t ty") auto
  from addType_cong[OF Suc.prems, of ref ty] a1 a2 have eq: "r2 = r1" "regs s1 = regs t1" by simp_all
  note a2' = a2[unfolded eq(1)]
  show ?case
  proof (cases r1)
    case None
    then show ?thesis using Suc.IH[OF eq(2)] by (simp add: a1 a2')
  next
    case (Some e)
    then show ?thesis using eq(2) by (simp add: a1 a2')
  qed
qed

lemma place_bitfield_cong:
  assumes "regs s = regs t" "f_type f = f_type g"
  shows "fst (place_bitfield s f) = fst (place_bitfield t g)
       \<and> regs (fst (snd (place_bitfield s f))) = regs (fst (snd (place_bitfield t g)))"
  using assms by (auto simp: place_bitfield_def Let_def regs_def)

lemma place_plain_cong:
  assumes "regs s = regs t"
  shows "fst (place_plain ref s f ty) = fst (place_plain ref t g ty)
       \<and> regs (fst (snd (place_plain ref s f ty))) = regs (fst (snd (place_plain ref t g ty)))"
proof -
  obtain r1 s1 o1 where a1: "addType ref s ty = (r1, s1, o1)" by (cases "addType ref s ty") auto
  obtain r2 t1 o2 where a2: "addType ref t ty = (r2, t1, o2)" by (cases "addType ref t ty") auto
  from addType_cong[OF assms, of ref ty] a1 a2 have eq: "r2 = r1" "regs s1 = regs t1" by simp_all
  note a2' = a2[unfolded eq(1)]
  show ?thesis using eq(2) by (cases r1) (simp_all add: place_plain_def a1 a2')
qed

lemma clear_cong: "regs s = regs t \<Longrightarrow> regs (clearBitfieldSettings s) = regs (clearBitfieldSettings t)"
  by (simp add: regs_def clearBitfieldSettings_def)

lemma place_field_cong:
  assumes rg: "regs s = regs t" and ty: "f_type f = f_type g"
  shows "fst (place_field ref s f) = fst (place_field ref t g)
       \<and> regs (fst (snd (place_field ref s f))) = regs (fst (snd (place_field ref t g)))"
proof (cases "f_type f")
  case (Plain p)
  with ty have fg: "f_type g = Plain p" by simp
  show ?thesis
    using place_plain_cong[OF clear_cong[OF rg], of ref f p g] by (simp add: place_field_def Plain fg)
next
  case (BitfieldType b u)
  show ?thesis
  proof (cases "b = 0")
    case True
    with BitfieldType ty have ff: "f_type f = BitfieldType 0 u" and fg: "f_type g = BitfieldType 0 u"
      by simp_all
    show ?thesis
      using place_plain_cong[OF clear_cong[OF rg], of ref f "u\<lparr>t_indirection := 1\<rparr>" g]
      by (simp add: place_field_def ff fg)
  next
    case False
    from BitfieldType ty have fg: "f_type g = BitfieldType b u" by simp
    show ?thesis
      using place_bitfield_cong[OF rg ty] False by (simp add: place_field_def BitfieldType fg)
  qed
next
  case (ArrayType d n el)
  let ?s = "clearBitfieldSettings s" and ?t = "clearBitfieldSettings t"
  obtain r1 s1 o1 where a1: "addType ref ?s el = (r1, s1, o1)" by (cases "addType ref ?s el") auto
  obtain r2 t1 o2 where a2: "addType ref ?t el = (r2, t1, o2)" by (cases "addType ref ?t el") auto
  from addType_cong[OF clear_cong[OF rg], of ref el] a1 a2
  have eq: "r2 = r1" "regs s1 = regs t1" by simp_all
  note a2' = a2[unfolded eq(1)]
  from ArrayType ty have fg: "f_type g = ArrayType d n el" by simp
  show ?thesis
  proof (cases r1)
    case None
    obtain q1 s2 where b1: "addType_times ref s1 el (n - 1) = (q1, s2)"
      by (cases "addType_times ref s1 el (n - 1)") auto
    obtain q2 t2 where b2: "addType_times ref t1 el (n - 1) = (q2, t2)"
      by (cases "addType_times ref t1 el (n - 1)") auto
    from addType_times_cong[OF eq(2), of ref el "n - 1"] b1 b2
    have "q2 = q1" "regs s2 = regs t2" by simp_all
    then show ?thesis by (simp add: place_field_def ArrayType fg a1 a2' None b1[simplified] b2[simplified])
  next
    case (Some e)
    then show ?thesis using eq(2) by (simp add: place_field_def ArrayType fg a1 a2')
  qed
qed

lemma place_field_type:
  "f_type (snd (snd (place_field ref s f))) = f_type f"
  by (auto simp: place_field_def place_plain_def place_bitfield_def Let_def
      split: ftype.splits prod.splits option.splits)

lemma second_pass_types:
  "second_pass ref s fs = (r, s', out) \<Longrightarrow> map (\<lambda>nf. f_type (snd nf)) out = map (\<lambda>nf. f_type (snd nf)) fs"
proof (induction fs arbitrary: s r s' out)
  case Nil then show ?case by simp
next
  case (Cons nf rest)
  obtain r1 s1 f1 where p: "place_field ref s (snd nf) = (r1, s1, f1)"
    by (cases "place_field ref s (snd nf)") auto
  with place_field_type[of ref s "snd nf"] have ft: "f_type f1 = f_type (snd nf)" by simp
  show ?case
  proof (cases r1)
    case None
    with Cons p ft show ?thesis by (auto split: prod.splits)
  next
    case (Some e)
    with Cons.prems p ft show ?thesis by auto
  qed
qed

lemma second_pass_cong:
  assumes "second_pass ref s fs = (None, s', out)"
      and "regs s = regs t"
      and "map (\<lambda>nf. f_type (snd nf)) fs = map (\<lambda>nf. f_type (snd nf)) gs"
  shows "\<exists>t' out'. second_pass ref t gs = (None, t', out') \<and> regs s' = regs t'"
  using assms
proof (induction fs arbitrary: s t gs out)
  case Nil
  then show ?case by simp
next
  case (Cons nf rest)
  from Cons.prems(3) obtain ng grest where gs: "gs = ng # grest"
    and ty: "f_type (snd nf) = f_type (snd ng)"
    and rest: "map (\<lambda>nf. f_type (snd nf)) rest = map (\<lambda>nf. f_type (snd nf)) grest"
    by (cases gs) auto
  from Cons.prems(1) obtain s1 f1 rest' where
    p: "place_field ref s (snd nf) = (None, s1, f1)"
    and sp: "second_pass ref s1 rest = (None, s', rest')"
    by (auto split: prod.splits option.splits)
  obtain r2 t1 g1 where q: "place_field ref t (snd ng) = (r2, t1, g1)"
    by (cases "place_field ref t (snd ng)") auto
  from place_field_cong[OF Cons.prems(2) ty, of ref] p q have eq: "r2 = None" "regs s1 = regs t1"
    by simp_all
  from Cons.IH[OF sp eq(2) rest] obtain t' out' where
    "second_pass ref t1 grest = (None, t', out')" "regs s' = regs t'" by blast
  with q eq gs show ?case by simp
qed

subsection \<open>Size and alignment through the loops\<close>

lemma place_bitfield_packed:
  assumes pb: "place_bitfield s f = (None, s', f')" and pk: "s_isPacked s"
  shows "s_size s' = s_size s \<or> s_size s' = s_size s + size_of (f_type f)"
proof -
  let ?ty = "f_type f"
  let ?td = "(case s_lastBitfieldType s of None \<Rightarrow> True
              | Some l \<Rightarrow> size_of l \<noteq> size_of ?ty \<or> alignment_of l \<noteq> alignment_of ?ty)"
  let ?first = "?td \<or> s_currBits s + bits_of ?ty > 8 * size_of ?ty"
  from pb have le: "bits_of ?ty \<le> size_of ?ty * 8"
    by (auto simp: place_bitfield_def Let_def split: if_splits)
  show ?thesis
  proof (cases ?first)
    case True
    with pb le pk have "s_size s' = s_size s + size_of ?ty"
      by (cases ?td) (auto simp: place_bitfield_def Let_def split: if_splits)
    then show ?thesis by simp
  next
    case False
    with pb le have "s_size s' = s_size s"
      by (auto simp: place_bitfield_def Let_def split: if_splits)
    then show ?thesis by simp
  qed
qed

lemma place_bitfield_size:
  assumes "place_bitfield s f = (None, s', f')"
  shows "s_size s \<le> s_size s' \<and> s_alignment s' = s_alignment s \<and> s_isPacked s' = s_isPacked s
       \<and> (s_isPacked s \<longrightarrow> s_size s' = s_size s \<or> s_size s' = s_size s + size_of (f_type f))"
  using place_bitfield_cases[OF assms] place_bitfield_packed[OF assms] by auto

lemma addType_packed_size:
  "addType ref s t = (None, s', off) \<Longrightarrow> s_isPacked s \<Longrightarrow>
     s_size s' = s_size s + (if t_indirection t = 1 then t_size t else sizeof_pointer ref)"
  by (auto simp: addType_def Let_def split: if_splits)

lemma addType_times_packed_dvd:
  "addType_times ref s t k = (None, s') \<Longrightarrow> s_isPacked s \<Longrightarrow> d dvd s_size s \<Longrightarrow>
     d dvd (if t_indirection t = 1 then t_size t else sizeof_pointer ref) \<Longrightarrow> d dvd s_size s'"
proof (induction k arbitrary: s)
  case 0 then show ?case by simp
next
  case (Suc k)
  from Suc.prems(1) obtain s1 off where a: "addType ref s t = (None, s1, off)"
    and r: "addType_times ref s1 t k = (None, s')"
    by (auto split: prod.splits option.splits)
  from addType_packed_size[OF a Suc.prems(2)] Suc.prems(3,4) have d1: "d dvd s_size s1" by simp
  from addType_ok[OF a] Suc.prems(2) have "s_isPacked s1" by simp
  from Suc.IH[OF r this d1 Suc.prems(4)] show ?case .
qed

lemma place_plain_mono:
  assumes "place_plain ref s f t = (None, s', f')"
  shows "s_size s \<le> s_size s' \<and> s_alignment s' = s_alignment s \<and> s_isPacked s' = s_isPacked s
       \<and> (s_isPacked s \<longrightarrow>
            s_size s' = s_size s + (if t_indirection t = 1 then t_size t else sizeof_pointer ref))"
  using assms
  by (auto simp: place_plain_def split: prod.splits option.splits
      dest: addType_ok addType_packed_size)

lemma place_field_mono:
  assumes pf: "place_field ref s f = (None, s', f')"
  shows "s_size s \<le> s_size s' \<and> s_alignment s' = s_alignment s \<and> s_isPacked s' = s_isPacked s"
proof -
  let ?c = "clearBitfieldSettings s"
  have c: "s_size ?c = s_size s" "s_alignment ?c = s_alignment s" "s_isPacked ?c = s_isPacked s"
    by (simp_all add: clearBitfieldSettings_def)
  show ?thesis
  proof (cases "f_type f")
    case (Plain t)
    with pf have "place_plain ref ?c f t = (None, s', f')" by (simp add: place_field_def)
    from place_plain_mono[OF this] c show ?thesis by simp
  next
    case (ArrayType d n el)
    with pf obtain s1 off where a: "addType ref ?c el = (None, s1, off)"
      and r: "addType_times ref s1 el (n - 1) = (None, s')"
      by (auto simp: place_field_def split: prod.splits option.splits)
    from addType_ok[OF a] addType_times_ok[OF r] c show ?thesis by simp
  next
    case (BitfieldType b u)
    show ?thesis
    proof (cases "b = 0")
      case True
      with pf BitfieldType have "place_plain ref ?c f (u\<lparr>t_indirection := 1\<rparr>) = (None, s', f')"
        by (simp add: place_field_def)
      from place_plain_mono[OF this] c show ?thesis by simp
    next
      case False
      with pf BitfieldType have "place_bitfield s f = (None, s', f')" by (simp add: place_field_def)
      from place_bitfield_size[OF this] show ?thesis by simp
    qed
  qed
qed

lemma place_field_packed_dvd:
  assumes pf: "place_field ref s f = (None, s', f')" and pk: "s_isPacked s"
      and d: "d dvd s_size s" and u: "d dvd unit_bytes ref (f_type f)"
  shows "d dvd s_size s'"
proof -
  let ?c = "clearBitfieldSettings s"
  have c: "s_size ?c = s_size s" "s_isPacked ?c = s_isPacked s"
    by (simp_all add: clearBitfieldSettings_def)
  show ?thesis
  proof (cases "f_type f")
    case (Plain t)
    with pf have "place_plain ref ?c f t = (None, s', f')" by (simp add: place_field_def)
    from place_plain_mono[OF this] c pk d u Plain show ?thesis by (simp add: unit_bytes_def)
  next
    case (ArrayType a n el)
    with pf obtain s1 off where a: "addType ref ?c el = (None, s1, off)"
      and r: "addType_times ref s1 el (n - 1) = (None, s')"
      by (auto simp: place_field_def split: prod.splits option.splits)
    from u ArrayType have ue: "d dvd (if t_indirection el = 1 then t_size el else sizeof_pointer ref)"
      by (simp add: unit_bytes_def)
    from addType_packed_size[OF a] c pk d ue have d1: "d dvd s_size s1" by simp
    from addType_ok[OF a] c pk have "s_isPacked s1" by simp
    from addType_times_packed_dvd[OF r this d1 ue] show ?thesis .
  next
    case (BitfieldType b w)
    show ?thesis
    proof (cases "b = 0")
      case True
      with pf BitfieldType have "place_plain ref ?c f (w\<lparr>t_indirection := 1\<rparr>) = (None, s', f')"
        by (simp add: place_field_def)
      from place_plain_mono[OF this] c pk d u BitfieldType show ?thesis by (simp add: unit_bytes_def)
    next
      case False
      with pf BitfieldType have "place_bitfield s f = (None, s', f')" by (simp add: place_field_def)
      from place_bitfield_size[OF this] pk d u BitfieldType show ?thesis
        by (auto simp: unit_bytes_def)
    qed
  qed
qed

lemma second_pass_mono:
  "second_pass ref s fs = (None, s', out) \<Longrightarrow>
     s_size s \<le> s_size s' \<and> s_alignment s' = s_alignment s \<and> s_isPacked s' = s_isPacked s"
proof (induction fs arbitrary: s out)
  case Nil then show ?case by simp
next
  case (Cons nf rest)
  from Cons.prems obtain s1 f1 rest' where
    p: "place_field ref s (snd nf) = (None, s1, f1)"
    and sp: "second_pass ref s1 rest = (None, s', rest')"
    by (auto split: prod.splits option.splits)
  from place_field_mono[OF p] Cons.IH[OF sp] show ?case by simp
qed

lemma second_pass_packed_dvd:
  "second_pass ref s fs = (None, s', out) \<Longrightarrow> s_isPacked s \<Longrightarrow> d dvd s_size s \<Longrightarrow>
     \<forall>nf \<in> set fs. d dvd unit_bytes ref (f_type (snd nf)) \<Longrightarrow> d dvd s_size s'"
proof (induction fs arbitrary: s out)
  case Nil then show ?case by simp
next
  case (Cons nf rest)
  from Cons.prems(1) obtain s1 f1 rest' where
    p: "place_field ref s (snd nf) = (None, s1, f1)"
    and sp: "second_pass ref s1 rest = (None, s', rest')"
    by (auto split: prod.splits option.splits)
  from place_field_packed_dvd[OF p Cons.prems(2,3)] Cons.prems(4) have d1: "d dvd s_size s1" by simp
  from place_field_mono[OF p] Cons.prems(2) have "s_isPacked s1" by simp
  from Cons.IH[OF sp this d1] Cons.prems(4) show ?case by simp
qed

subsection \<open>The first loop\<close>

lemma alignment_step_simps:
  "s_isPacked (alignment_step ref nf s) = s_isPacked s"
  "s_alignment (alignment_step ref nf s) =
     (if s_isPacked s
      then min (if s_alignment s = 0 then field_alignment ref (f_type (snd nf)) else s_alignment s)
               (field_alignment ref (f_type (snd nf)))
      else max (s_alignment s) (field_alignment ref (f_type (snd nf))))"
  by (simp_all add: alignment_step_def Let_def)

lemma fold_alignment_cong:
  "map (\<lambda>nf. f_type (snd nf)) fs = map (\<lambda>nf. f_type (snd nf)) gs \<Longrightarrow>
   s_isPacked s = s_isPacked t \<Longrightarrow> s_alignment s = s_alignment t \<Longrightarrow>
   s_alignment (fold (alignment_step ref) fs s) = s_alignment (fold (alignment_step ref) gs t)"
proof (induction fs arbitrary: gs s t)
  case Nil then show ?case by simp
next
  case (Cons nf rest)
  from Cons.prems(1) obtain ng grest where gs: "gs = ng # grest"
    and ty: "f_type (snd nf) = f_type (snd ng)"
    and rest: "map (\<lambda>nf. f_type (snd nf)) rest = map (\<lambda>nf. f_type (snd nf)) grest"
    by (cases gs) auto
  have "s_isPacked (alignment_step ref nf s) = s_isPacked (alignment_step ref ng t)"
       "s_alignment (alignment_step ref nf s) = s_alignment (alignment_step ref ng t)"
    using Cons.prems(2,3) ty by (simp_all add: alignment_step_simps)
  from Cons.IH[OF rest this] gs show ?case by simp
qed

lemma fold_alignment_pow2:
  assumes "\<forall>nf \<in> set fs. is_pow2 (field_alignment ref (f_type (snd nf)))"
      and "s_alignment s = 0 \<or> is_pow2 (s_alignment s)"
  shows "s_alignment (fold (alignment_step ref) fs s) = 0
         \<or> is_pow2 (s_alignment (fold (alignment_step ref) fs s))"
  using assms
proof (induction fs arbitrary: s)
  case Nil then show ?case by simp
next
  case (Cons nf rest)
  have "s_alignment (alignment_step ref nf s) = 0 \<or> is_pow2 (s_alignment (alignment_step ref nf s))"
    using Cons.prems by (auto simp: alignment_step_simps min_def max_def)
  with Cons show ?case by simp
qed

lemma fold_alignment_packed_dvd:
  assumes "\<forall>nf \<in> set fs. is_pow2 (field_alignment ref (f_type (snd nf)))"
      and "s_alignment s = 0 \<or> is_pow2 (s_alignment s)"
      and "s_isPacked s"
  shows "(\<forall>nf \<in> set fs. s_alignment (fold (alignment_step ref) fs s) dvd field_alignment ref (f_type (snd nf)))
       \<and> (s_alignment s \<noteq> 0 \<longrightarrow> s_alignment (fold (alignment_step ref) fs s) dvd s_alignment s)"
  using assms
proof (induction fs arbitrary: s)
  case Nil then show ?case by simp
next
  case (Cons nf rest)
  let ?a = "field_alignment ref (f_type (snd nf))"
  let ?s1 = "alignment_step ref nf s"
  let ?A = "s_alignment (fold (alignment_step ref) rest ?s1)"
  from Cons.prems(1) have pa: "is_pow2 ?a" by simp
  have a1: "s_alignment ?s1 = min (if s_alignment s = 0 then ?a else s_alignment s) ?a"
    using Cons.prems(3) by (simp add: alignment_step_simps)
  have p1: "is_pow2 (s_alignment ?s1)"
    using Cons.prems(2) pa by (auto simp: a1 min_def)
  have d1: "s_alignment ?s1 dvd ?a"
    using p1 pa by (intro pow2_dvd) (simp_all add: a1)
  have d0: "s_alignment s \<noteq> 0 \<Longrightarrow> s_alignment ?s1 dvd s_alignment s"
    using p1 Cons.prems(2) by (intro pow2_dvd) (auto simp: a1)
  have pk1: "s_isPacked ?s1" using Cons.prems(3) by (simp add: alignment_step_simps)
  from Cons.prems(1) have r: "\<forall>nf \<in> set rest. is_pow2 (field_alignment ref (f_type (snd nf)))" by simp
  from Cons.IH[OF r _ pk1] p1
  have ih: "\<forall>nf \<in> set rest. ?A dvd field_alignment ref (f_type (snd nf))" "?A dvd s_alignment ?s1"
    using pow2_pos[OF p1] by auto
  from ih(2) d1 have "?A dvd ?a" by (rule dvd_trans)
  moreover from ih(2) d0 have "s_alignment s \<noteq> 0 \<longrightarrow> ?A dvd s_alignment s"
    by (auto intro: dvd_trans)
  ultimately show ?case using ih(1) by simp
qed

subsection \<open>The final padding\<close>

lemma round_up_least:
  fixes x a y :: nat
  assumes a: "0 < a" and dv: "a dvd y" and le: "x \<le> y" and nz: "x mod a \<noteq> 0"
  shows "x + (a - x mod a) \<le> y"
proof -
  from dv obtain k where k: "y = a * k" ..
  have "x div a < k"
  proof (rule ccontr)
    assume "\<not> x div a < k"
    then have "k \<le> x div a" by simp
    then have "a * k \<le> a * (x div a)" by (rule mult_le_mono2)
    also have "\<dots> \<le> x" by simp
    finally have "a * k \<le> x" .
    with le have "x = a * k" unfolding k by linarith
    then have "x mod a = 0" by (metis mod_mult_self1_is_0)
    with nz show False ..
  qed
  then have "Suc (x div a) \<le> k" by (rule Suc_leI)
  then have "a * Suc (x div a) \<le> a * k" by (rule mult_le_mono2)
  moreover have "x + (a - x mod a) = a * Suc (x div a)"
  proof -
    have e: "a * (x div a) = x - x mod a" by (rule minus_mod_eq_mult_div[symmetric])
    have m1: "x mod a \<le> x" by (rule mod_less_eq_dividend)
    have m2: "x mod a < a" using a by (rule mod_less_divisor)
    have "a * Suc (x div a) = a + (x - x mod a)" unfolding mult_Suc_right e ..
    with m1 m2 show ?thesis by linarith
  qed
  ultimately show ?thesis unfolding k by simp
qed

lemma addFinalPadding_eq:
  "s_size (addFinalPadding s) =
     (if s_alignment s = 0 \<or> s_size s mod s_alignment s = 0 then s_size s
      else s_size s + (s_alignment s - s_size s mod s_alignment s))"
  "s_alignment (addFinalPadding s) = s_alignment s"
  by (simp_all add: addFinalPadding_def Let_def)

lemma addFinalPadding_ge: "s_size s \<le> s_size (addFinalPadding s)"
proof (cases "s_alignment s = 0")
  case True then show ?thesis unfolding addFinalPadding_eq by simp
next
  case False
  then have "s_size s mod s_alignment s < s_alignment s" by simp
  then show ?thesis unfolding addFinalPadding_eq by auto
qed

lemma addFinalPadding_dvd:
  assumes "0 < s_alignment s"
  shows "s_alignment s dvd s_size (addFinalPadding s)"
proof (cases "s_size s mod s_alignment s = 0")
  case True
  then have "s_alignment s dvd s_size s" by (rule iffD2[OF dvd_eq_mod_eq_0])
  with True show ?thesis unfolding addFinalPadding_eq by simp
next
  case False
  then have lt: "s_alignment s - s_size s mod s_alignment s < s_alignment s"
    using assms by simp
  from pad_aligned[OF assms, of "s_size s"] lt False assms
  show ?thesis unfolding addFinalPadding_eq by simp
qed

lemma addFinalPadding_id:
  "s_alignment s = 0 \<or> s_alignment s dvd s_size s \<Longrightarrow> s_size (addFinalPadding s) = s_size s"
  unfolding addFinalPadding_eq by (auto simp: mod_eq_0_iff_dvd)

lemma addFinalPadding_least:
  assumes a: "0 < s_alignment s" and dv: "s_alignment s dvd y" and le: "s_size s \<le> y"
  shows "s_size (addFinalPadding s) \<le> y"
proof (cases "s_size s mod s_alignment s = 0")
  case True
  with le show ?thesis unfolding addFinalPadding_eq by simp
next
  case False
  from round_up_least[OF a dv le False] False a show ?thesis
    unfolding addFinalPadding_eq by simp
qed

lemma recalc_unfold:
  assumes "recalc ref s = (None, s')"
  obtains p m out where
    "p = fold (alignment_step ref) (s_fields s) (clearBitfieldSettings (s\<lparr>s_size := 0, s_alignment := 0\<rparr>))"
    "second_pass ref p (s_fields s) = (None, m, out)"
    "s' = addFinalPadding (m\<lparr>s_fields := out\<rparr>)"
proof -
  let ?i = "clearBitfieldSettings (s\<lparr>s_size := 0, s_alignment := 0\<rparr>)"
  have f: "s_fields ?i = s_fields s" by (simp add: clearBitfieldSettings_def)
  let ?p = "fold (alignment_step ref) (s_fields s) ?i"
  have "s_fields ?p = s_fields s" by (simp add: fold_alignment_step_fields f)
  with assms obtain m out where "second_pass ref ?p (s_fields s) = (None, m, out)"
    "s' = addFinalPadding (m\<lparr>s_fields := out\<rparr>)"
    by (auto simp: recalc_def Let_def f split: prod.splits option.splits)
  with that show thesis by blast
qed

lemma start_regs:
  "regs (fold (alignment_step ref) fs (clearBitfieldSettings (s\<lparr>s_size := 0, s_alignment := 0\<rparr>)))
     = (0, s_isPacked s, 0, None)"
  by (simp add: regs_def fold_alignment_step_regs clearBitfieldSettings_def)

subsection \<open>The place of a new field in the table\<close>

lemma table_put_fresh:
  assumes "n \<notin> set (map fst fs)" "n \<noteq> ''__proto__''"
  shows "\<exists>pre post. fs = pre @ post \<and> table_put n v fs = pre @ (n, v) # post"
proof -
  have ins: "\<exists>pre post. fs = pre @ post \<and> table_insert n v fs = pre @ (n, v) # post"
    for fs :: "(string \<times> 'a) list"
  proof (induction fs)
    case Nil then show ?case by simp
  next
    case (Cons e rest)
    show ?case
    proof (cases "is_array_index (fst e) \<and> index_value (fst e) < index_value n")
      case True
      from Cons obtain pre post where
        "rest = pre @ post" "table_insert n v rest = pre @ (n, v) # post"
        by blast
      with True have "e # rest = (e # pre) @ post
          \<and> table_insert n v (e # rest) = (e # pre) @ (n, v) # post"
        by simp
      then show ?thesis by blast
    next
      case False
      then have "e # rest = [] @ (e # rest)
          \<and> table_insert n v (e # rest) = [] @ (n, v) # (e # rest)"
        by auto
      then show ?thesis by blast
    qed
  qed
  show ?thesis
  proof (cases "is_array_index n")
    case True
    with assms ins[of fs] show ?thesis by (simp add: table_put_def)
  next
    case False
    with assms have "fs = fs @ [] \<and> table_put n v fs = fs @ (n, v) # []"
      by (simp add: table_put_def)
    then show ?thesis by blast
  qed
qed

subsection \<open>Padding\<close>

lemma pad_to_ge: "x \<le> pad_to p a x"
  by (simp add: pad_to_def)

lemma pad_to_mono:
  assumes le: "x \<le> y" and a: "p \<or> 0 < a"
  shows "pad_to p a x \<le> pad_to p a y"
proof (cases p)
  case True
  with le show ?thesis by (simp add: pad_to_def)
next
  case False
  with a have a0: "0 < a" by simp
  have dv: "a dvd y + (a - y mod a) mod a" using a0 by (rule pad_aligned)
  have ley: "x \<le> y + (a - y mod a) mod a" using le by simp
  show ?thesis
  proof (cases "x mod a = 0")
    case True
    with ley False show ?thesis by (simp add: pad_to_def)
  next
    case nz: False
    then have "(a - x mod a) mod a = a - x mod a" using a0 by simp
    with round_up_least[OF a0 dv ley nz] False show ?thesis by (simp add: pad_to_def)
  qed
qed

subsection \<open>One round of the second loop, on the registers\<close>

lemma place_bitfield_regs:
  assumes "place_bitfield s f = (None, s', f')"
  shows "s_lastBitfieldType s' = Some (f_type f) \<and> s_isPacked s' = s_isPacked s
    \<and> (if (case s_lastBitfieldType s of None \<Rightarrow> True | Some l \<Rightarrow> \<not> same_unit l (f_type f))
        then s_size s' = pad_to (s_isPacked s) (alignment_of (f_type f)) (s_size s) + size_of (f_type f)
             \<and> s_currBits s' = bits_of (f_type f)
             \<and> (s_isPacked s \<or> 0 < alignment_of (f_type f))
        else if s_currBits s + bits_of (f_type f) > 8 * size_of (f_type f)
        then s_size s' = s_size s + size_of (f_type f) \<and> s_currBits s' = bits_of (f_type f)
        else s_size s' = s_size s \<and> s_currBits s' = s_currBits s + bits_of (f_type f))"
  using assms
  by (auto simp: place_bitfield_def Let_def pad_to_def same_unit_def
      split: if_splits option.splits)

lemma addType_regs:
  assumes "addType ref s ty = (None, s', off)"
  shows "s_size s' = pad_to (s_isPacked s)
                       (if t_indirection ty = 1 then t_alignment ty else alignof_pointer ref)
                       (s_size s)
                   + (if t_indirection ty = 1 then t_size ty else sizeof_pointer ref)
       \<and> (s_isPacked s \<or> 0 < (if t_indirection ty = 1 then t_alignment ty else alignof_pointer ref))
       \<and> s_isPacked s' = s_isPacked s \<and> s_lastBitfieldType s' = s_lastBitfieldType s"
  using assms by (auto simp: addType_def Let_def pad_to_def split: if_splits)

lemma addType_mono2:
  assumes a: "addType ref s ty = (None, s1, o1)" and b: "addType ref t ty = (None, t1, o2)"
      and pk: "s_isPacked t = s_isPacked s" and le: "s_size s \<le> s_size t"
  shows "s_size s1 \<le> s_size t1 \<and> s_isPacked t1 = s_isPacked s1"
proof -
  let ?al = "if t_indirection ty = 1 then t_alignment ty else alignof_pointer ref"
  from addType_regs[OF a] addType_regs[OF b] pk
  have e: "s_size s1 = pad_to (s_isPacked s) ?al (s_size s)
                      + (if t_indirection ty = 1 then t_size ty else sizeof_pointer ref)"
          "s_size t1 = pad_to (s_isPacked s) ?al (s_size t)
                      + (if t_indirection ty = 1 then t_size ty else sizeof_pointer ref)"
          "s_isPacked s \<or> 0 < ?al" "s_isPacked t1 = s_isPacked s1"
    by simp_all
  from pad_to_mono[OF le e(3)] e(1,2,4) show ?thesis by simp
qed

lemma addType_times_mono2:
  assumes "addType_times ref s ty k = (None, s1)" and "addType_times ref t ty k = (None, t1)"
      and "s_isPacked t = s_isPacked s" and "s_size s \<le> s_size t"
  shows "s_size s1 \<le> s_size t1 \<and> s_isPacked t1 = s_isPacked s1"
  using assms
proof (induction k arbitrary: s t)
  case 0 then show ?case by simp
next
  case (Suc k)
  from Suc.prems(1) obtain sa oa where a: "addType ref s ty = (None, sa, oa)"
    and ra: "addType_times ref sa ty k = (None, s1)"
    by (auto split: prod.splits option.splits)
  from Suc.prems(2) obtain ta ob where b: "addType ref t ty = (None, ta, ob)"
    and rb: "addType_times ref ta ty k = (None, t1)"
    by (auto split: prod.splits option.splits)
  from addType_mono2[OF a b Suc.prems(3,4)] have "s_size sa \<le> s_size ta" "s_isPacked ta = s_isPacked sa"
    by simp_all
  from Suc.IH[OF ra rb this(2,1)] show ?case .
qed

lemma place_plain_unfold:
  assumes "place_plain ref s f t = (None, s', f')"
  obtains off where "addType ref s t = (None, s', off)"
  using assms by (auto simp: place_plain_def split: prod.splits option.splits)

lemma place_nonbits_regs:
  assumes ps: "place_field ref s f = (None, s1, f1)" and nb: "bits_of (f_type f) = 0"
  shows "s_lastBitfieldType s1 = None \<and> s_isPacked s1 = s_isPacked s \<and> s_size s \<le> s_size s1"
proof -
  let ?c = "clearBitfieldSettings s"
  have c: "s_size ?c = s_size s" "s_lastBitfieldType ?c = None" "s_isPacked ?c = s_isPacked s"
    by (simp_all add: clearBitfieldSettings_def)
  show ?thesis
  proof (cases "f_type f")
    case (Plain t)
    with ps nb have "place_plain ref ?c f t = (None, s1, f1)" by (simp add: place_field_def)
    then obtain off where "addType ref ?c t = (None, s1, off)" by (rule place_plain_unfold)
    from addType_ok[OF this] c show ?thesis by simp
  next
    case (ArrayType d n el)
    with ps nb obtain sa off where a: "addType ref ?c el = (None, sa, off)"
      and r: "addType_times ref sa el (n - 1) = (None, s1)"
      by (auto simp: place_field_def split: prod.splits option.splits)
    from addType_ok[OF a] addType_times_ok[OF r] c show ?thesis by simp
  next
    case (BitfieldType b u)
    with nb have "b = 0" by simp
    with ps BitfieldType have "place_plain ref ?c f (u\<lparr>t_indirection := 1\<rparr>) = (None, s1, f1)"
      by (simp add: place_field_def)
    then obtain off where "addType ref ?c (u\<lparr>t_indirection := 1\<rparr>) = (None, s1, off)"
      by (rule place_plain_unfold)
    from addType_ok[OF this] c show ?thesis by simp
  qed
qed

lemma place_nonbits_mono2:
  assumes ps: "place_field ref s f = (None, s1, f1)"
      and pt: "place_field ref t g = (None, t1, g1)"
      and ty: "f_type g = f_type f" and nb: "bits_of (f_type f) = 0"
      and pk: "s_isPacked t = s_isPacked s" and le: "s_size s \<le> s_size t"
  shows "s_size s1 \<le> s_size t1"
proof -
  let ?c = "clearBitfieldSettings s" and ?d = "clearBitfieldSettings t"
  have c: "s_isPacked ?d = s_isPacked ?c" "s_size ?c \<le> s_size ?d"
    using pk le by (simp_all add: clearBitfieldSettings_def)
  show ?thesis
  proof (cases "f_type f")
    case (Plain p)
    with ps nb have "place_plain ref ?c f p = (None, s1, f1)" by (simp add: place_field_def)
    then obtain o1 where a: "addType ref ?c p = (None, s1, o1)" by (rule place_plain_unfold)
    from Plain pt nb ty have "place_plain ref ?d g p = (None, t1, g1)" by (simp add: place_field_def)
    then obtain o2 where b: "addType ref ?d p = (None, t1, o2)" by (rule place_plain_unfold)
    from addType_mono2[OF a b c] show ?thesis by simp
  next
    case (ArrayType d n el)
    with ps nb obtain sa o1 where a: "addType ref ?c el = (None, sa, o1)"
      and ra: "addType_times ref sa el (n - 1) = (None, s1)"
      by (auto simp: place_field_def split: prod.splits option.splits)
    from ArrayType pt nb ty obtain ta o2 where b: "addType ref ?d el = (None, ta, o2)"
      and rb: "addType_times ref ta el (n - 1) = (None, t1)"
      by (auto simp: place_field_def split: prod.splits option.splits)
    from addType_mono2[OF a b c] have "s_size sa \<le> s_size ta" "s_isPacked ta = s_isPacked sa"
      by simp_all
    from addType_times_mono2[OF ra rb this(2,1)] show ?thesis by simp
  next
    case (BitfieldType b u)
    with nb have b0: "b = 0" by simp
    with ps BitfieldType have "place_plain ref ?c f (u\<lparr>t_indirection := 1\<rparr>) = (None, s1, f1)"
      by (simp add: place_field_def)
    then obtain o1 where a: "addType ref ?c (u\<lparr>t_indirection := 1\<rparr>) = (None, s1, o1)"
      by (rule place_plain_unfold)
    from BitfieldType b0 pt ty have "place_plain ref ?d g (u\<lparr>t_indirection := 1\<rparr>) = (None, t1, g1)"
      by (simp add: place_field_def)
    then obtain o2 where b: "addType ref ?d (u\<lparr>t_indirection := 1\<rparr>) = (None, t1, o2)"
      by (rule place_plain_unfold)
    from addType_mono2[OF a b c] show ?thesis by simp
  qed
qed

subsection \<open>A field more in front never leaves the loop behind\<close>

lemma same_unit_refl: "same_unit t t"
  by (simp add: same_unit_def)

lemma place_field_ahead:
  assumes ah: "ahead s t"
      and ps: "place_field ref s f = (None, s1, f1)"
      and pt: "place_field ref t g = (None, t1, g1)"
      and ty: "f_type g = f_type f"
  shows "ahead s1 t1"
proof (cases "bits_of (f_type f) = 0")
  case True
  from ah have pk: "s_isPacked t = s_isPacked s" and le: "s_size s \<le> s_size t"
    by (simp_all add: ahead_def)
  from True ty have nbg: "bits_of (f_type g) = 0" by simp
  from place_nonbits_regs[OF ps True] place_nonbits_regs[OF pt nbg]
    place_nonbits_mono2[OF ps pt ty True pk le] pk
  show ?thesis by (simp add: ahead_def)
next
  case False
  then obtain b u where tf: "f_type f = BitfieldType b u" and b: "b \<noteq> 0"
    by (cases "f_type f") auto
  let ?ty = "f_type f"
  let ?sz = "size_of ?ty" and ?al = "alignment_of ?ty" and ?b = "bits_of ?ty"
  from ps tf b have pbs: "place_bitfield s f = (None, s1, f1)" by (simp add: place_field_def)
  from pt tf b ty have pbt: "place_bitfield t g = (None, t1, g1)" by (simp add: place_field_def)
  from ah have pk: "s_isPacked t = s_isPacked s" and le: "s_size s \<le> s_size t"
    by (simp_all add: ahead_def)
  let ?P = "s_isPacked s"
  define tds where "tds = (case s_lastBitfieldType s of None \<Rightarrow> True | Some l \<Rightarrow> \<not> same_unit l ?ty)"
  define tdt where "tdt = (case s_lastBitfieldType t of None \<Rightarrow> True | Some l \<Rightarrow> \<not> same_unit l ?ty)"
  from place_bitfield_regs[OF pbs] have rs:
    "s_lastBitfieldType s1 = Some ?ty" "s_isPacked s1 = ?P"
    "tds \<Longrightarrow> s_size s1 = pad_to ?P ?al (s_size s) + ?sz \<and> s_currBits s1 = ?b \<and> (?P \<or> 0 < ?al)"
    "\<not> tds \<Longrightarrow> s_currBits s + ?b > 8 * ?sz \<Longrightarrow> s_size s1 = s_size s + ?sz \<and> s_currBits s1 = ?b"
    "\<not> tds \<Longrightarrow> \<not> s_currBits s + ?b > 8 * ?sz \<Longrightarrow> s_size s1 = s_size s \<and> s_currBits s1 = s_currBits s + ?b"
    by (simp_all add: tds_def)
  from place_bitfield_regs[OF pbt, unfolded ty pk] have rt:
    "s_lastBitfieldType t1 = Some ?ty" "s_isPacked t1 = ?P"
    "tdt \<Longrightarrow> s_size t1 = pad_to ?P ?al (s_size t) + ?sz \<and> s_currBits t1 = ?b \<and> (?P \<or> 0 < ?al)"
    "\<not> tdt \<Longrightarrow> s_currBits t + ?b > 8 * ?sz \<Longrightarrow> s_size t1 = s_size t + ?sz \<and> s_currBits t1 = ?b"
    "\<not> tdt \<Longrightarrow> \<not> s_currBits t + ?b > 8 * ?sz \<Longrightarrow> s_size t1 = s_size t \<and> s_currBits t1 = s_currBits t + ?b"
    by (simp_all add: tdt_def)
  have goal: "s_size s1 \<le> s_size t1 \<and> (s_currBits s1 \<le> s_currBits t1 \<or> s_size s1 + ?sz \<le> s_size t1)"
  proof (cases tds)
    case sT: True
    show ?thesis
    proof (cases tdt)
      case True
      from rs(3)[OF sT] rt(3)[OF True] pad_to_mono[OF le, of ?P ?al] show ?thesis by auto
    next
      case tF: False
      then obtain l' where l': "s_lastBitfieldType t = Some l'" "same_unit l' ?ty"
        by (auto simp: tdt_def split: option.splits)
      have beyond: "pad_to ?P ?al (s_size s) + ?sz \<le> s_size t"
      proof (cases "s_lastBitfieldType s")
        case None
        with ah l'(1)
        have "pad_to ?P (alignment_of l') (s_size s) + size_of l' \<le> s_size t"
          by (simp add: ahead_def)
        with l'(2) show ?thesis by (simp add: same_unit_def)
      next
        case (Some l)
        with sT have "\<not> same_unit l ?ty" by (simp add: tds_def)
        with l'(2) have ns: "\<not> same_unit l l'" by (auto simp: same_unit_def)
        from ah l'(1) Some ns
        have "pad_to ?P (alignment_of l') (s_size s) + size_of l' \<le> s_size t"
          by (simp add: ahead_def)
        with l'(2) show ?thesis by (simp add: same_unit_def)
      qed
      show ?thesis
      proof (cases "s_currBits t + ?b > 8 * ?sz")
        case True
        from rs(3)[OF sT] rt(4)[OF tF True] beyond show ?thesis by auto
      next
        case False
        from rs(3)[OF sT] rt(5)[OF tF False] beyond show ?thesis by auto
      qed
    qed
  next
    case sF: False
    then obtain l where l: "s_lastBitfieldType s = Some l" "same_unit l ?ty"
      by (auto simp: tds_def split: option.splits)
    show ?thesis
    proof (cases tdt)
      case True
      have "s_size t \<le> pad_to ?P ?al (s_size t)" by (rule pad_to_ge)
      with rt(3)[OF True] le have big: "s_size s + ?sz \<le> s_size t1" "s_currBits t1 = ?b" by simp_all
      show ?thesis
      proof (cases "s_currBits s + ?b > 8 * ?sz")
        case True
        from rs(4)[OF sF True] big show ?thesis by auto
      next
        case False
        from rs(5)[OF sF False] big show ?thesis by auto
      qed
    next
      case tF: False
      then obtain l' where l': "s_lastBitfieldType t = Some l'" "same_unit l' ?ty"
        by (auto simp: tdt_def split: option.splits)
      from l(2) l'(2) have su: "same_unit l l'" "size_of l = ?sz" by (auto simp: same_unit_def)
      with ah l(1) l'(1) have rel: "s_currBits s \<le> s_currBits t \<or> s_size s + ?sz \<le> s_size t"
        by (simp add: ahead_def)
      show ?thesis
      proof (cases "s_currBits s + ?b > 8 * ?sz")
        case so: True
        show ?thesis
        proof (cases "s_currBits t + ?b > 8 * ?sz")
          case True
          from rs(4)[OF sF so] rt(4)[OF tF True] le show ?thesis by auto
        next
          case False
          with so have "\<not> s_currBits s \<le> s_currBits t" by simp
          with rel have "s_size s + ?sz \<le> s_size t" by simp
          with rs(4)[OF sF so] rt(5)[OF tF False] show ?thesis by auto
        qed
      next
        case sc: False
        show ?thesis
        proof (cases "s_currBits t + ?b > 8 * ?sz")
          case True
          from rs(5)[OF sF sc] rt(4)[OF tF True] le show ?thesis by auto
        next
          case False
          from rs(5)[OF sF sc] rt(5)[OF tF False] le rel show ?thesis by auto
        qed
      qed
    qed
  qed
  with rs(1,2) rt(1,2) show ?thesis by (simp add: ahead_def same_unit_refl)
qed

lemma place_field_insert_ahead:
  assumes pt: "place_field ref t x = (None, t1, x1)"
  shows "ahead t t1"
proof (cases "bits_of (f_type x) = 0")
  case True
  from place_nonbits_regs[OF pt True] show ?thesis by (simp add: ahead_def)
next
  case False
  then obtain b u where tf: "f_type x = BitfieldType b u" and b: "b \<noteq> 0"
    by (cases "f_type x") auto
  with pt have pb: "place_bitfield t x = (None, t1, x1)" by (simp add: place_field_def)
  note r = place_bitfield_regs[OF pb]
  have ge: "s_size t \<le> pad_to (s_isPacked t) (alignment_of (f_type x)) (s_size t)"
    by (rule pad_to_ge)
  show ?thesis
  proof (cases "s_lastBitfieldType t")
    case None
    with r ge show ?thesis by (simp add: ahead_def)
  next
    case (Some l)
    show ?thesis
    proof (cases "same_unit l (f_type x)")
      case True
      with r Some show ?thesis by (auto simp: ahead_def same_unit_def split: if_splits)
    next
      case False
      with r Some ge show ?thesis by (simp add: ahead_def)
    qed
  qed
qed

lemma second_pass_ahead:
  assumes "ahead s t"
      and "second_pass ref s fs = (None, s', out)"
      and "second_pass ref t gs = (None, t', out')"
      and "map (\<lambda>nf. f_type (snd nf)) gs = map (\<lambda>nf. f_type (snd nf)) fs"
  shows "ahead s' t'"
  using assms
proof (induction fs arbitrary: s t gs out out')
  case Nil
  then show ?case by simp
next
  case (Cons nf rest)
  from Cons.prems(4) obtain ng grest where gs: "gs = ng # grest"
    and ty: "f_type (snd ng) = f_type (snd nf)"
    and rest: "map (\<lambda>nf. f_type (snd nf)) grest = map (\<lambda>nf. f_type (snd nf)) rest"
    by (cases gs) auto
  from Cons.prems(2) obtain s1 f1 rest' where
    p: "place_field ref s (snd nf) = (None, s1, f1)"
    and sp: "second_pass ref s1 rest = (None, s', rest')"
    by (auto split: prod.splits option.splits)
  from Cons.prems(3) gs obtain t1 g1 grest' where
    q: "place_field ref t (snd ng) = (None, t1, g1)"
    and sq: "second_pass ref t1 grest = (None, t', grest')"
    by (auto split: prod.splits option.splits)
  from place_field_ahead[OF Cons.prems(1) p q ty] have "ahead s1 t1" .
  from Cons.IH[OF this sp sq rest] show ?case .
qed

subsection \<open>The first loop with a field more\<close>

lemma fold_alignment_nonpacked_le:
  assumes "\<not> s_isPacked s" "\<not> s_isPacked t" "s_alignment s \<le> s_alignment t"
  shows "s_alignment (fold (alignment_step ref) fs s) \<le> s_alignment (fold (alignment_step ref) fs t)"
  using assms
proof (induction fs arbitrary: s t)
  case Nil then show ?case by simp
next
  case (Cons nf rest)
  have "\<not> s_isPacked (alignment_step ref nf s)" "\<not> s_isPacked (alignment_step ref nf t)"
       "s_alignment (alignment_step ref nf s) \<le> s_alignment (alignment_step ref nf t)"
    using Cons.prems by (simp_all add: alignment_step_simps)
  from Cons.IH[OF this] show ?case by simp
qed

lemma fold_alignment_nonpacked_ge:
  assumes "\<not> s_isPacked s"
  shows "s_alignment s \<le> s_alignment (fold (alignment_step ref) fs s)"
  using assms
proof (induction fs arbitrary: s)
  case Nil then show ?case by simp
next
  case (Cons nf rest)
  have np: "\<not> s_isPacked (alignment_step ref nf s)"
    and le: "s_alignment s \<le> s_alignment (alignment_step ref nf s)"
    using Cons.prems by (simp_all add: alignment_step_simps)
  from Cons.IH[OF np] le show ?case by simp
qed

lemma fold_alignment_insert:
  assumes np: "\<not> s_isPacked s"
  shows "s_alignment (fold (alignment_step ref) (pre @ post) s)
           \<le> s_alignment (fold (alignment_step ref) (pre @ x # post) s)
       \<and> field_alignment ref (f_type (snd x))
           \<le> s_alignment (fold (alignment_step ref) (pre @ x # post) s)"
proof -
  let ?q = "fold (alignment_step ref) pre s"
  have npq: "\<not> s_isPacked ?q" using np by (simp add: fold_alignment_step_regs)
  have npx: "\<not> s_isPacked (alignment_step ref x ?q)" using npq by (simp add: alignment_step_simps)
  have le: "s_alignment ?q \<le> s_alignment (alignment_step ref x ?q)"
    and fx: "field_alignment ref (f_type (snd x)) \<le> s_alignment (alignment_step ref x ?q)"
    using npq by (simp_all add: alignment_step_simps)
  from fold_alignment_nonpacked_le[OF npq npx le, of ref post]
    fold_alignment_nonpacked_ge[OF npx, of ref post] fx
  show ?thesis by simp
qed

subsection \<open>The layout depends on the types only\<close>

lemma recalc_size_cong:
  assumes ra: "recalc ref a = (None, a')" and rb: "recalc ref b = (None, b')"
      and ty: "map (\<lambda>nf. f_type (snd nf)) (s_fields a) = map (\<lambda>nf. f_type (snd nf)) (s_fields b)"
      and pk: "s_isPacked a = s_isPacked b"
  shows "s_size a' = s_size b'"
proof -
  from recalc_unfold[OF ra] obtain pa ma outa where
    pa: "pa = fold (alignment_step ref) (s_fields a) (clearBitfieldSettings (a\<lparr>s_size := 0, s_alignment := 0\<rparr>))"
    and spa: "second_pass ref pa (s_fields a) = (None, ma, outa)"
    and a': "a' = addFinalPadding (ma\<lparr>s_fields := outa\<rparr>)"
    by blast
  from recalc_unfold[OF rb] obtain pb mb outb where
    pb: "pb = fold (alignment_step ref) (s_fields b) (clearBitfieldSettings (b\<lparr>s_size := 0, s_alignment := 0\<rparr>))"
    and spb: "second_pass ref pb (s_fields b) = (None, mb, outb)"
    and b': "b' = addFinalPadding (mb\<lparr>s_fields := outb\<rparr>)"
    by blast
  have "regs pa = regs pb" by (simp add: pa pb start_regs pk)
  from second_pass_cong[OF spa this ty] spb have "regs ma = regs mb" by auto
  then have sz: "s_size ma = s_size mb" by (simp add: regs_def)
  have "s_alignment pa = s_alignment pb"
    unfolding pa pb
    by (rule fold_alignment_cong[OF ty]) (simp_all add: clearBitfieldSettings_def pk)
  with second_pass_mono[OF spa] second_pass_mono[OF spb]
  have al: "s_alignment ma = s_alignment mb" by simp
  show ?thesis unfolding a' b' addFinalPadding_eq using sz al by simp
qed


text \<open>
  C8, as the code has it. Take a schema, packed or not, whose layout is the result of
  \<^verbatim>\<open>recalc\<close> in numbers, and in which the alignment that the first loop takes for each
  field is a power of two; in a packed schema let that alignment also divide the number
  of bytes that a placement of the field adds. A \<^verbatim>\<open>defineProperty\<close> call that returns
  with a layout in numbers, for a name not yet in the table and, unless the schema is
  packed, a type for which the first loop takes a power of two as alignment, leaves a
  size that is not smaller than the size before. The name is any string: a name that is
  an array index puts the new field in front of fields declared earlier, and the name
  \<^verbatim>\<open>__proto__\<close> adds no field.
\<close>

theorem add_field_size_monotone:
  assumes cur: "recalc ref s0 = (None, s)"
      and add: "defineProperty ref s (Name n) (Some ty) = (None, s')"
      and fresh: "n \<notin> fst ` set (s_fields s)"
      and pw_old: "\<forall>nf \<in> set (s_fields s). is_pow2 (field_alignment ref (f_type (snd nf)))"
      and pw_new: "\<not> s_isPacked s \<longrightarrow> is_pow2 (field_alignment ref ty)"
      and dv_old: "s_isPacked s \<longrightarrow>
                     (\<forall>nf \<in> set (s_fields s).
                        field_alignment ref (f_type (snd nf)) dvd unit_bytes ref (f_type (snd nf)))"
  shows "s_size s \<le> s_size s'"
proof -
  let ?ty = "\<lambda>nf :: string \<times> field. f_type (snd nf)"
  let ?i0 = "clearBitfieldSettings (s0\<lparr>s_size := 0, s_alignment := 0\<rparr>)"
  from recalc_unfold[OF cur] obtain p0 m0 out0 where
    p0: "p0 = fold (alignment_step ref) (s_fields s0) ?i0"
    and sp0: "second_pass ref p0 (s_fields s0) = (None, m0, out0)"
    and s: "s = addFinalPadding (m0\<lparr>s_fields := out0\<rparr>)"
    by blast
  have fs: "s_fields s = out0" by (simp add: s addFinalPadding_def Let_def)
  have ty0: "map ?ty out0 = map ?ty (s_fields s0)" using sp0 by (rule second_pass_types)
  from second_pass_mono[OF sp0]
  have m0: "s_alignment m0 = s_alignment p0" "s_isPacked m0 = s_isPacked p0" by simp_all
  have pk0: "s_isPacked p0 = s_isPacked s0"
    by (simp add: p0 fold_alignment_step_regs clearBitfieldSettings_def)
  have pks: "s_isPacked s = s_isPacked s0"
    by (simp add: s addFinalPadding_def Let_def m0 pk0)
  \<comment> \<open>the call\<close>
  define s1 where "s1 = s\<lparr>s_fields := table_put n (new_field ty) out0\<rparr>"
  from add have rc1: "recalc ref s1 = (None, s')"
    by (auto simp: defineProperty_def internalDefineProperty_def coerceType_def s1_def fs
        split: if_splits prod.splits option.splits)
  show ?thesis
  proof (cases "n = ''__proto__''")
    case True
    then have "s1 = s" by (simp add: s1_def table_put_def fs[symmetric])
    with rc1 have rs: "recalc ref s = (None, s')" by simp
    from recalc_size_cong[OF cur rs] ty0 pks fs show ?thesis by simp
  next
    case np: False
    from fresh have "n \<notin> set (map fst out0)" by (simp add: fs)
    from table_put_fresh[OF this np, of "new_field ty"] obtain pre post where
      o0: "out0 = pre @ post" and tp: "table_put n (new_field ty) out0 = pre @ (n, new_field ty) # post"
      by blast
    let ?x = "(n, new_field ty)"
    let ?i1 = "clearBitfieldSettings (s1\<lparr>s_size := 0, s_alignment := 0\<rparr>)"
    from recalc_unfold[OF rc1] obtain p1 m1 out1 where
      p1: "p1 = fold (alignment_step ref) (s_fields s1) ?i1"
      and sp1: "second_pass ref p1 (s_fields s1) = (None, m1, out1)"
      and s': "s' = addFinalPadding (m1\<lparr>s_fields := out1\<rparr>)"
      by blast
    have f1: "s_fields s1 = pre @ ?x # post" by (simp add: s1_def tp)
    have pk1: "s_isPacked s1 = s_isPacked s0" by (simp add: s1_def pks)
    define q1 where "q1 = fold (alignment_step ref) out0 ?i1"
    \<comment> \<open>the second loop over the old fields, from the start of the new run\<close>
    have r01: "regs p0 = regs p1" by (simp add: p0 p1 start_regs pk1)
    from second_pass_cong[OF sp0 r01 ty0[symmetric]] obtain mO outO where
      spO: "second_pass ref p1 out0 = (None, mO, outO)" and rO: "regs m0 = regs mO"
      by blast
    from spO o0 obtain mA outA outP where
      spA: "second_pass ref p1 pre = (None, mA, outA)"
      and spP: "second_pass ref mA post = (None, mO, outP)"
      by (auto simp: second_pass_append split: prod.splits option.splits)
    from sp1 f1 spA obtain mB g outQ where
      pfn: "place_field ref mA (new_field ty) = (None, mB, g)"
      and spQ: "second_pass ref mB post = (None, m1, outQ)"
      by (auto simp: second_pass_append split: prod.splits option.splits)
    from place_field_insert_ahead[OF pfn] have "ahead mA mB" .
    from second_pass_ahead[OF this spP spQ] have "ahead mO m1" by simp
    then have "s_size mO \<le> s_size m1" by (simp add: ahead_def)
    moreover from rO have xO: "s_size mO = s_size m0" by (simp add: regs_def)
    ultimately have x: "s_size m0 \<le> s_size m1" by simp
    from second_pass_mono[OF sp1] have a1: "s_alignment m1 = s_alignment p1" by simp
    \<comment> \<open>the first loop\<close>
    have i1: "s_alignment ?i1 = 0" "s_isPacked ?i1 = s_isPacked s0"
      by (simp_all add: clearBitfieldSettings_def pk1)
    have i0: "s_alignment ?i0 = 0" "s_isPacked ?i0 = s_isPacked s0"
      by (simp_all add: clearBitfieldSettings_def)
    have aq: "s_alignment q1 = s_alignment p0"
      unfolding q1_def p0
      by (rule fold_alignment_cong[OF ty0]) (simp_all add: i0 i1)
    from pw_old have pw: "\<forall>nf \<in> set out0. is_pow2 (field_alignment ref (f_type (snd nf)))"
      by (simp add: fs)
    have aold: "s_alignment q1 = 0 \<or> is_pow2 (s_alignment q1)"
      unfolding q1_def by (rule fold_alignment_pow2[OF pw]) (simp add: i1)
    let ?S0 = "m0\<lparr>s_fields := out0\<rparr>" and ?S1 = "m1\<lparr>s_fields := out1\<rparr>"
    have S0: "s_alignment ?S0 = s_alignment q1" "s_size ?S0 = s_size m0"
      by (simp_all add: m0 aq)
    have S1: "s_alignment ?S1 = s_alignment p1" "s_size ?S1 = s_size m1"
      by (simp_all add: a1)
    have new_ge: "s_size m1 \<le> s_size s'"
      using addFinalPadding_ge[of ?S1] by (simp add: s')
    show ?thesis
    proof (cases "s_isPacked s0")
      case True
      have "\<forall>nf \<in> set out0. s_alignment q1 dvd field_alignment ref (f_type (snd nf))"
        unfolding q1_def using fold_alignment_packed_dvd[OF pw, of ?i1] True by (simp add: i1)
      moreover from dv_old True have "\<forall>nf \<in> set out0.
          field_alignment ref (f_type (snd nf)) dvd unit_bytes ref (f_type (snd nf))"
        by (simp add: fs pks)
      ultimately have du: "\<forall>nf \<in> set out0. s_alignment q1 dvd unit_bytes ref (f_type (snd nf))"
        by (blast intro: dvd_trans)
      have "s_isPacked p1" "s_size p1 = 0"
        using True by (simp_all add: p1 fold_alignment_step_regs i1 pk1 clearBitfieldSettings_def)
      from second_pass_packed_dvd[OF spO this(1) _ du] this(2)
      have "s_alignment q1 dvd s_size mO" by simp
      then have "s_size (addFinalPadding ?S0) = s_size m0"
        by (intro addFinalPadding_id[THEN trans]) (simp_all add: S0 xO)
      with x new_ge show ?thesis by (simp add: s)
    next
      case False
      show ?thesis
      proof (cases "s_alignment q1 = 0")
        case True
        then have "s_size (addFinalPadding ?S0) = s_size m0"
          by (intro addFinalPadding_id[THEN trans]) (simp_all add: S0)
        with x new_ge show ?thesis by (simp add: s)
      next
        case nz: False
        with aold have po: "is_pow2 (s_alignment q1)" by simp
        have npi: "\<not> s_isPacked ?i1" using False by (simp add: i1)
        from fold_alignment_insert[OF npi, of ref pre post ?x]
        have le: "s_alignment q1 \<le> s_alignment p1"
          and fx: "field_alignment ref ty \<le> s_alignment p1"
          by (simp_all add: q1_def o0 p1 f1 new_field_def)
        from pw_new False have pn: "is_pow2 (field_alignment ref ty)" by (simp add: pks)
        have pwn: "\<forall>nf \<in> set (pre @ ?x # post). is_pow2 (field_alignment ref (f_type (snd nf)))"
          using pw pn by (auto simp: o0 new_field_def)
        have "s_alignment p1 = 0 \<or> is_pow2 (s_alignment p1)"
          unfolding p1 f1 by (rule fold_alignment_pow2[OF pwn]) (simp add: i1)
        with fx pow2_pos[OF pn] have pnw: "is_pow2 (s_alignment p1)" by auto
        have "s_alignment q1 dvd s_alignment p1"
          using po pnw le by (rule pow2_dvd)
        moreover have "s_alignment p1 dvd s_size s'"
          using addFinalPadding_dvd[of ?S1] pow2_pos[OF pnw] by (simp add: s' S1)
        ultimately have dv: "s_alignment ?S0 dvd s_size s'"
          unfolding S0 by (rule dvd_trans)
        have "s_size ?S0 \<le> s_size s'" using x new_ge by (simp add: S0)
        from addFinalPadding_least[OF _ dv this] nz show ?thesis by (simp add: s S0)
      qed
    qed
  qed
qed


theorem add_field_size_monotone_witness:
  "recalc ref64 (snd readme_S) = (None, snd readme_S)
   \<and> fst (defineProperty ref64 (snd readme_S) (Name ''0'') (Some (Plain int_t))) = None
   \<and> \<not> s_isPacked (snd readme_S)
   \<and> s_size (snd readme_S) = 40
   \<and> s_size (snd (defineProperty ref64 (snd readme_S) (Name ''0'') (Some (Plain int_t)))) = 48
   \<and> s_size (snd readme_S)
       \<le> s_size (snd (defineProperty ref64 (snd readme_S) (Name ''0'') (Some (Plain int_t))))
   \<and> recalc ref64 packed_two_S = (None, packed_two_S)
   \<and> fst (defineProperty ref64 packed_two_S (Name ''c'') (Some (BitfieldType 3 int_t))) = None
   \<and> s_isPacked packed_two_S
   \<and> s_size packed_two_S = 9
   \<and> s_size (snd (defineProperty ref64 packed_two_S (Name ''c'') (Some (BitfieldType 3 int_t)))) = 13
   \<and> s_size packed_two_S
       \<le> s_size (snd (defineProperty ref64 packed_two_S (Name ''c'') (Some (BitfieldType 3 int_t))))"
proof -
  let ?r = "defineProperty ref64 (snd readme_S) (Name ''0'') (Some (Plain int_t))"
  have cur: "recalc ref64 (snd readme_S) = (None, snd readme_S)" by code_simp
  have ok: "fst ?r = None" by code_simp
  then have add: "?r = (None, snd ?r)" by (simp add: prod_eq_iff)
  have fresh: "''0'' \<notin> fst ` set (s_fields (snd readme_S))" by code_simp
  have old: "\<forall>nf \<in> set (s_fields (snd readme_S)). is_pow2 (field_alignment ref64 (f_type (snd nf)))"
    by code_simp
  have new: "is_pow2 (field_alignment ref64 (Plain int_t))" by code_simp
  have np: "\<not> s_isPacked (snd readme_S)" by code_simp
  have sz: "s_size (snd readme_S) = 40" "s_size (snd ?r) = 48" by code_simp+
  let ?q = "defineProperty ref64 packed_two_S (Name ''c'') (Some (BitfieldType 3 int_t))"
  have pcur: "recalc ref64 packed_two_S = (None, packed_two_S)" by code_simp
  have pok: "fst ?q = None" by code_simp
  then have padd: "?q = (None, snd ?q)" by (simp add: prod_eq_iff)
  have pfresh: "''c'' \<notin> fst ` set (s_fields packed_two_S)" by code_simp
  have pold: "\<forall>nf \<in> set (s_fields packed_two_S). is_pow2 (field_alignment ref64 (f_type (snd nf)))"
    by code_simp
  have pk: "s_isPacked packed_two_S" by code_simp
  have pdv: "\<forall>nf \<in> set (s_fields packed_two_S).
      field_alignment ref64 (f_type (snd nf)) dvd unit_bytes ref64 (f_type (snd nf))"
    by code_simp
  have psz: "s_size packed_two_S = 9" "s_size (snd ?q) = 13" by code_simp+
  from add_field_size_monotone [OF cur add fresh old] new
    add_field_size_monotone [OF pcur padd pfresh pold] np pdv
    cur ok sz pcur pok pk psz
  show ?thesis by simp
qed

text \<open>
  C8 as stated fails. \<^verbatim>\<open>defineProperty\<close> with the name of an existing field replaces its
  type: redefining the \<^verbatim>\<open>int64\<close> field of a struct as \<^verbatim>\<open>char\<close> takes the size from 8 to
  1. With a type whose alignment does not divide its size, adding a field under a new
  name can shrink a packed struct: size 8 (one byte padded to the alignment 8) becomes
  size 2 when a \<^verbatim>\<open>char\<close> is added and the alignment drops to 1. With an alignment that is
  not a power of two, adding a field under a new name can shrink a struct that is not
  packed: size 8 (five bytes padded to the alignment 4) becomes size 6 when an array of
  one \<^verbatim>\<open>char\<close> with the alignment 6 is added; and it can shrink a packed struct whose
  alignments divide the sizes: size 9 (seven bytes padded to the alignment 3) becomes
  size 8 when a \<^verbatim>\<open>char\<close> is added. And adding a bitfield over a type without
  alignment to a struct that is not packed makes the size \<^verbatim>\<open>NaN\<close> (the outcome
  \<open>NotANumber\<close>), which is not greater than or equal to any size.
\<close>

theorem redefinition_shrinks_counterexample:
  "s_size one_field_S = 8
   \<and> fst (defineProperty ref64 one_field_S (Name ''a'') (Some (Plain char_t))) = None
   \<and> s_size (snd (defineProperty ref64 one_field_S (Name ''a'') (Some (Plain char_t)))) = 1
   \<and> s_isPacked packed_wide_S \<and> s_size packed_wide_S = 8
   \<and> fst (defineProperty ref64 packed_wide_S (Name ''y'') (Some (Plain char_t))) = None
   \<and> s_size (snd (defineProperty ref64 packed_wide_S (Name ''y'') (Some (Plain char_t)))) = 2
   \<and> \<not> s_isPacked five_four_S \<and> s_size five_four_S = 8
   \<and> fst (defineProperty ref64 five_four_S (Name ''r'') (Some six_aligned_array)) = None
   \<and> s_size (snd (defineProperty ref64 five_four_S (Name ''r'') (Some six_aligned_array))) = 6
   \<and> s_isPacked packed_four_three_S \<and> s_size packed_four_three_S = 9
   \<and> fst (defineProperty ref64 packed_four_three_S (Name ''z'') (Some (Plain char_t))) = None
   \<and> s_size (snd (defineProperty ref64 packed_four_three_S (Name ''z'') (Some (Plain char_t)))) = 8
   \<and> fst (defineProperty ref64 one_field_S (Name ''q'') (Some (BitfieldType 3 no_alignment4)))
       = Some NotANumber"
  by code_simp

end
